theory Spec2Isabelle
  imports Main
begin

section \<open>Errors and the circuit breaker of \<open>BaseStore\<close>\<close>

text \<open>
  The error classes of \<open>types/index.ts\<close> that the modelled code throws. \<open>PlainError\<close> is
  JavaScript's own \<open>Error\<close> (thrown by \<open>LayeredStrategy.set\<close>); the argument is the message.
\<close>

datatype cache_error =
    StoreError string
  | CircuitBreakerError string
  | PlainError string

fun message :: "cache_error \<Rightarrow> string" where
  "message (StoreError m) = m"
| "message (CircuitBreakerError m) = m"
| "message (PlainError m) = m"

text \<open>
  \<open>CircuitBreakerState\<close> and the breaker configuration. Times are milliseconds as
  \<open>Date.now()\<close> returns them; an optional field that is \<open>undefined\<close> is \<open>None\<close>.
\<close>

record circuit_breaker_state =
  isOpen :: bool
  failures :: int
  lastFailTime :: "int option"
  nextAttemptTime :: "int option"

record circuit_breaker_config =
  enabled :: bool
  errorThreshold :: int
  timeout :: int

text \<open>
  The two protected fields of the abstract class \<open>BaseStore\<close>. A subclass is a record
  extension, so the breaker works on every \<open>'z base_store_scheme\<close>.
\<close>

record base_store =
  circuitBreaker :: "circuit_breaker_state option"
  circuitBreakerConfig :: "circuit_breaker_config option"

text \<open>The constructor: a breaker exists exactly when \<open>config.circuitBreaker.enabled\<close> is truthy.\<close>

definition base_store_init :: "circuit_breaker_config option \<Rightarrow> base_store" where
  "base_store_init cfg =
     (case cfg of
        None \<Rightarrow> \<lparr>circuitBreaker = None, circuitBreakerConfig = None\<rparr>
      | Some c \<Rightarrow>
          if enabled c
          then \<lparr>circuitBreaker = Some \<lparr>isOpen = False, failures = 0,
                                       lastFailTime = None, nextAttemptTime = None\<rparr>,
                circuitBreakerConfig = Some c\<rparr>
          else \<lparr>circuitBreaker = None, circuitBreakerConfig = None\<rparr>)"

text \<open>
  The test \<open>this.circuitBreaker.nextAttemptTime && now < this.circuitBreaker.nextAttemptTime\<close>:
  \<open>undefined\<close> and \<open>0\<close> are falsy.
\<close>

definition attempt_blocked :: "circuit_breaker_state \<Rightarrow> int \<Rightarrow> bool" where
  "attempt_blocked cb now =
     (case nextAttemptTime cb of None \<Rightarrow> False | Some t \<Rightarrow> t \<noteq> 0 \<and> now < t)"

text \<open>
  An asynchronous method body: it runs on the store's state and either resolves (\<open>Inr\<close>)
  or rejects (\<open>Inl\<close>), leaving a new state.
\<close>

type_synonym ('s, 'a) operation = "'s \<Rightarrow> (cache_error + 'a) \<times> 's"

text \<open>
  The \<open>catch\<close> block of \<open>executeWithCircuitBreaker\<close>, on the breaker's fields:
  \<open>tFail\<close> and \<open>tOpen\<close> are the two readings of \<open>Date.now()\<close> it takes.
\<close>

definition record_failure ::
  "circuit_breaker_config \<Rightarrow> int \<Rightarrow> int \<Rightarrow> circuit_breaker_state \<Rightarrow> circuit_breaker_state" where
  "record_failure cfg tFail tOpen cb =
     (let cb1 = cb\<lparr>failures := failures cb + 1, lastFailTime := Some tFail\<rparr>
      in if failures cb1 \<ge> errorThreshold cfg
         then cb1\<lparr>isOpen := True, nextAttemptTime := Some (tOpen + timeout cfg)\<rparr>
         else cb1)"

text \<open>
  \<open>BaseStore.executeWithCircuitBreaker\<close>. \<open>tCheck\<close> is the reading of \<open>Date.now()\<close> in the
  \<open>isOpen\<close> branch. The operation runs on the whole store, breaker included (\<open>mget\<close> wraps
  calls of \<open>get\<close>, which is wrapped itself), so the bookkeeping after it acts on the
  breaker as the operation left it. The two fields are assigned in the constructor only.
\<close>

definition executeWithCircuitBreaker ::
  "int \<Rightarrow> int \<Rightarrow> int \<Rightarrow> ('z base_store_scheme, 'a) operation
     \<Rightarrow> ('z base_store_scheme, 'a) operation" where
  "executeWithCircuitBreaker tCheck tFail tOpen operation s =
     (case (circuitBreaker s, circuitBreakerConfig s) of
        (Some cb, Some cfg) \<Rightarrow>
          if isOpen cb \<and> attempt_blocked cb tCheck
          then (Inl (CircuitBreakerError ''Circuit breaker is open''), s)
          else
            (let s1 = (if isOpen cb
                       then s\<lparr>circuitBreaker := Some (cb\<lparr>isOpen := False, failures := 0\<rparr>)\<rparr>
                       else s)
             in case operation s1 of
                  (Inr result, s2) \<Rightarrow>
                    (Inr result,
                     s2\<lparr>circuitBreaker :=
                          map_option (\<lambda>c. c\<lparr>failures := 0\<rparr>) (circuitBreaker s2)\<rparr>)
                | (Inl err, s2) \<Rightarrow>
                    (Inl err,
                     s2\<lparr>circuitBreaker :=
                          map_option (record_failure cfg tFail tOpen) (circuitBreaker s2)\<rparr>))
      | _ \<Rightarrow> operation s)"

text \<open>A store with a breaker (threshold 3, cooldown 1000 ms) and two operations, for the examples.\<close>

definition demo_breaker_config :: circuit_breaker_config where
  "demo_breaker_config = \<lparr>enabled = True, errorThreshold = 3, timeout = 1000\<rparr>"

definition demo_store :: "bool \<Rightarrow> int \<Rightarrow> int option \<Rightarrow> base_store" where
  "demo_store opn n t =
     \<lparr>circuitBreaker = Some \<lparr>isOpen = opn, failures = n, lastFailTime = None, nextAttemptTime = t\<rparr>,
      circuitBreakerConfig = Some demo_breaker_config\<rparr>"

definition failing_operation :: "(base_store, int) operation" where
  "failing_operation s = (Inl (StoreError ''backend down''), s)"

definition succeeding_operation :: "(base_store, int) operation" where
  "succeeding_operation s = (Inr 42, s)"


section \<open>Keys, values, options and entries\<close>

text \<open>
  \<open>CacheKey\<close> is declared as \<open>string\<close>, but \<open>validateKey\<close> also tests
  \<open>typeof key !== 'string'\<close>: \<open>KeyOther\<close> stands for any run-time key that is not a string,
  with the text that a template literal prints for it.
\<close>

datatype cache_key = KeyString string | KeyOther string

fun key_text :: "cache_key \<Rightarrow> string" where
  "key_text (KeyString k) = k"
| "key_text (KeyOther t) = t"

text \<open>
  The \<open>dependencies\<close> property of a cached object, as \<open>findChildDependencies\<close> reads it:
  absent, an array of identifiers, or a single identifier.
\<close>

datatype dependencies_property =
    NoDependencies
  | DependencyArray "string list"
  | DependencyValue string

text \<open>
  A run-time value: \<open>undefined\<close>, \<open>null\<close>, a primitive (string, number, boolean) or an
  object with a payload and its \<open>dependencies\<close> property.
\<close>

datatype cache_value =
    Undefined
  | Null
  | Primitive string
  | Object string dependencies_property

record cache_options =
  opt_ttl :: "int option"
  opt_tags :: "string list option"
  opt_dependencies :: "string list option"
  opt_compress :: "bool option"
  opt_serialize :: "bool option"

record cache_entry =
  entry_value :: cache_value
  ttl :: "int option"
  createdAt :: int
  lastAccessed :: int
  tags :: "string list option"
  dependencies :: "string list option"
  compressed :: "bool option"
  serialized :: "bool option"

text \<open>\<open>BaseStore.validateKey\<close>: it returns normally on a non-empty string only.\<close>

definition validateKey :: "cache_key \<Rightarrow> cache_error + string" where
  "validateKey key =
     (case key of
        KeyString k \<Rightarrow>
          if k = [] then Inl (StoreError ''Cache key must be a non-empty string'') else Inr k
      | KeyOther _ \<Rightarrow> Inl (StoreError ''Cache key must be a non-empty string''))"

definition validateValue :: "cache_value \<Rightarrow> cache_error + unit" where
  "validateValue v =
     (if v = Undefined then Inl (StoreError ''Cache value cannot be undefined'') else Inr ())"

text \<open>\<open>BaseStore.isExpired\<close>, with the reading of \<open>Date.now()\<close> as \<open>now\<close>; \<open>!ttl\<close> holds
  for \<open>undefined\<close> and for \<open>0\<close>.\<close>

definition isExpired :: "int \<Rightarrow> int \<Rightarrow> int option \<Rightarrow> bool" where
  "isExpired now created t =
     (case t of None \<Rightarrow> False | Some n \<Rightarrow> n \<noteq> 0 \<and> now - created > n * 1000)"


section \<open>The LRU cache that \<open>MemoryStore\<close> is built on\<close>

text \<open>
  \<open>MemoryStore\<close> keeps its entries in an \<open>LRUCache\<close> of the package \<open>lru-cache\<close>, created
  with the options \<open>max\<close>, \<open>ttl\<close>, \<open>updateAgeOnGet: true\<close>, \<open>updateAgeOnHas: true\<close> and a
  \<open>dispose\<close> hook. The package is a dependency, not part of the repository; the definitions
  of this section state its documented behaviour under these options. The items are listed
  from the most to the least recently used; an item carries the time its age counts from
  and its lifetime in milliseconds, \<open>0\<close> meaning that it does not expire. Each function
  returns the pairs handed to \<open>dispose\<close>, in order.
\<close>

record 'v lru_item =
  item_value :: 'v
  item_start :: int
  item_ttl :: int

record 'v lru_cache =
  lru_max :: nat
  lru_ttl :: int
  lru_items :: "(string \<times> 'v lru_item) list"

definition lru_stale :: "int \<Rightarrow> 'v lru_item \<Rightarrow> bool" where
  "lru_stale now it = (item_ttl it \<noteq> 0 \<and> now - item_start it > item_ttl it)"

definition lru_remove :: "string \<Rightarrow> (string \<times> 'a) list \<Rightarrow> (string \<times> 'a) list" where
  "lru_remove k xs = filter (\<lambda>p. fst p \<noteq> k) xs"

definition lru_restart :: "int \<Rightarrow> 'v lru_item \<Rightarrow> 'v lru_item" where
  "lru_restart now it = it\<lparr>item_start := (if item_ttl it \<noteq> 0 then now else 0)\<rparr>"

text \<open>\<open>cache.get(k)\<close>: a stale item is deleted and disposed of; a live one becomes the most
  recently used and, by \<open>updateAgeOnGet\<close>, its age restarts.\<close>

definition lru_get ::
  "int \<Rightarrow> string \<Rightarrow> 'v lru_cache \<Rightarrow> 'v option \<times> (string \<times> 'v) list \<times> 'v lru_cache" where
  "lru_get now k c =
     (case map_of (lru_items c) k of
        None \<Rightarrow> (None, [], c)
      | Some it \<Rightarrow>
          if lru_stale now it
          then (None, [(k, item_value it)], c\<lparr>lru_items := lru_remove k (lru_items c)\<rparr>)
          else (Some (item_value it), [],
                c\<lparr>lru_items := (k, lru_restart now it) # lru_remove k (lru_items c)\<rparr>))"

text \<open>\<open>cache.has(k)\<close>: false for a stale item, which stays; by \<open>updateAgeOnHas\<close> the age of
  a live one restarts, its rank does not change.\<close>

definition lru_has :: "int \<Rightarrow> string \<Rightarrow> 'v lru_cache \<Rightarrow> bool \<times> 'v lru_cache" where
  "lru_has now k c =
     (case map_of (lru_items c) k of
        None \<Rightarrow> (False, c)
      | Some it \<Rightarrow>
          if lru_stale now it then (False, c)
          else (True,
                c\<lparr>lru_items :=
                    map (\<lambda>p. if fst p = k then (fst p, lru_restart now (snd p)) else p)
                        (lru_items c)\<rparr>))"

text \<open>\<open>cache.delete(k)\<close>.\<close>

definition lru_delete ::
  "string \<Rightarrow> 'v lru_cache \<Rightarrow> bool \<times> (string \<times> 'v) list \<times> 'v lru_cache" where
  "lru_delete k c =
     (case map_of (lru_items c) k of
        None \<Rightarrow> (False, [], c)
      | Some it \<Rightarrow> (True, [(k, item_value it)], c\<lparr>lru_items := lru_remove k (lru_items c)\<rparr>))"

text \<open>
  \<open>cache.set(k, v, {ttl})\<close>: \<open>ttl\<close> defaults to the cache's own; a value already stored under
  \<open>k\<close> is disposed of (the store writes a fresh object every time, so old and new value
  always differ); a new key in a full cache evicts the least recently used item.
\<close>

definition lru_set ::
  "int \<Rightarrow> string \<Rightarrow> 'v \<Rightarrow> int option \<Rightarrow> 'v lru_cache \<Rightarrow> (string \<times> 'v) list \<times> 'v lru_cache" where
  "lru_set now k v t c =
     (let life = (case t of None \<Rightarrow> lru_ttl c | Some n \<Rightarrow> n);
          it = \<lparr>item_value = v, item_start = (if life \<noteq> 0 then now else 0), item_ttl = life\<rparr>;
          xs = lru_items c
      in case map_of xs k of
           Some old \<Rightarrow> ([(k, item_value old)], c\<lparr>lru_items := (k, it) # lru_remove k xs\<rparr>)
         | None \<Rightarrow>
             if xs \<noteq> [] \<and> length xs = lru_max c
             then ([(fst (last xs), item_value (snd (last xs)))],
                   c\<lparr>lru_items := (k, it) # butlast xs\<rparr>)
             else ([], c\<lparr>lru_items := (k, it) # xs\<rparr>))"

text \<open>\<open>cache.clear()\<close> and \<open>cache.keys()\<close>; the latter leaves stale items out.\<close>

definition lru_clear :: "'v lru_cache \<Rightarrow> (string \<times> 'v) list \<times> 'v lru_cache" where
  "lru_clear c = (map (\<lambda>p. (fst p, item_value (snd p))) (lru_items c), c\<lparr>lru_items := []\<rparr>)"

definition lru_keys :: "int \<Rightarrow> 'v lru_cache \<Rightarrow> string list" where
  "lru_keys now c = map fst (filter (\<lambda>p. \<not> lru_stale now (snd p)) (lru_items c))"


section \<open>Glob patterns: \<open>MemoryStore.patternToRegex\<close>\<close>

text \<open>
  The three \<open>replace\<close> passes of \<open>patternToRegex\<close> on the pattern's characters: the
  characters of the class \<open>[.+^${}()|[\]\\]\<close> get a backslash in front, then every \<open>*\<close>
  becomes \<open>.*\<close>, then every \<open>?\<close> becomes \<open>.\<close>; the result is put between \<open>^\<close> and \<open>$\<close>.
  The backslash is \<open>CHR 0x5C\<close>.
\<close>

definition regex_special :: "char \<Rightarrow> bool" where
  "regex_special c = (c \<in> set ''.+^${}()|[]'' \<or> c = CHR 0x5C)"

definition escape_special :: "string \<Rightarrow> string" where
  "escape_special p = concat (map (\<lambda>c. if regex_special c then [CHR 0x5C, c] else [c]) p)"

definition star_to_dot_star :: "string \<Rightarrow> string" where
  "star_to_dot_star p = concat (map (\<lambda>c. if c = CHR ''*'' then ''.*'' else [c]) p)"

definition question_to_dot :: "string \<Rightarrow> string" where
  "question_to_dot p = map (\<lambda>c. if c = CHR ''?'' then CHR ''.'' else c) p"

definition patternToRegex :: "string \<Rightarrow> string" where
  "patternToRegex pattern =
     ''^'' @ question_to_dot (star_to_dot_star (escape_special pattern)) @ ''$''"

text \<open>
  What \<open>new RegExp(source)\<close> and \<open>regex.test(key)\<close> do with such a source, without flags.
  The source is read into atoms; a construct that \<open>patternToRegex\<close> never produces (a
  quantifier other than \<open>*\<close> after a dot, a group, a class, an escape of an ordinary
  character) is \<open>None\<close>, not modelled. The dot matches every character but a line
  terminator; of JavaScript's four line terminators, line feed and carriage return are
  characters of \<open>char\<close>.
\<close>

datatype regex_atom = Literal char | Dot | DotStar | InputStart | InputEnd

definition line_terminator :: "char \<Rightarrow> bool" where
  "line_terminator c = (c = CHR 0x0A \<or> c = CHR 0x0D)"

definition plain_atom :: "char \<Rightarrow> regex_atom option" where
  "plain_atom c =
     (if c = CHR ''^'' then Some InputStart
      else if c = CHR ''$'' then Some InputEnd
      else if c = CHR ''.'' then Some Dot
      else if regex_special c \<or> c = CHR ''*'' \<or> c = CHR ''?'' then None
      else Some (Literal c))"

fun regex_atoms :: "string \<Rightarrow> regex_atom list option" where
  "regex_atoms [] = Some []"
| "regex_atoms [c] = map_option (\<lambda>a. [a]) (plain_atom c)"
| "regex_atoms (c # d # rest) =
     (if c = CHR 0x5C
      then (if regex_special d then map_option ((#) (Literal d)) (regex_atoms rest) else None)
      else if c = CHR ''.'' \<and> d = CHR ''*''
      then map_option ((#) DotStar) (regex_atoms rest)
      else (case plain_atom c of
              None \<Rightarrow> None
            | Some a \<Rightarrow> map_option ((#) a) (regex_atoms (d # rest))))"

fun atoms_match :: "regex_atom list \<Rightarrow> string \<Rightarrow> bool" where
  "atoms_match [] key = (key = [])"
| "atoms_match (Literal c # atoms) key =
     (case key of [] \<Rightarrow> False | x # xs \<Rightarrow> x = c \<and> atoms_match atoms xs)"
| "atoms_match (Dot # atoms) key =
     (case key of [] \<Rightarrow> False | x # xs \<Rightarrow> \<not> line_terminator x \<and> atoms_match atoms xs)"
| "atoms_match (DotStar # atoms) key =
     (atoms_match atoms key
      \<or> (case key of [] \<Rightarrow> False
          | x # xs \<Rightarrow> \<not> line_terminator x \<and> atoms_match (DotStar # atoms) xs))"
| "atoms_match (InputStart # atoms) key = False"
| "atoms_match (InputEnd # atoms) key = False"

text \<open>\<open>regex.test(key)\<close> for a source of the form \<open>^\<close>\<dots>\<open>$\<close>: the whole key has to match.\<close>

definition regex_test :: "string \<Rightarrow> string \<Rightarrow> bool option" where
  "regex_test source key =
     (case regex_atoms source of
        Some (InputStart # atoms) \<Rightarrow>
          if atoms \<noteq> [] \<and> last atoms = InputEnd
          then Some (atoms_match (butlast atoms) key)
          else None
      | _ \<Rightarrow> None)"

text \<open>
  Glob matching as the specification words it, to compare with: \<open>*\<close> matches any sequence
  of characters, also the empty one, \<open>?\<close> matches exactly one character, every other
  character matches itself, and the whole key is matched. The parameter \<open>wild\<close> says which
  characters a wildcard may stand for; the specification's glob is \<open>glob_match\<close>.
\<close>

fun glob_match_on :: "(char \<Rightarrow> bool) \<Rightarrow> string \<Rightarrow> string \<Rightarrow> bool" where
  "glob_match_on wild [] key = (key = [])"
| "glob_match_on wild (p # ps) key =
     (if p = CHR ''*''
      then glob_match_on wild ps key
           \<or> (case key of [] \<Rightarrow> False
               | x # xs \<Rightarrow> wild x \<and> glob_match_on wild (p # ps) xs)
      else if p = CHR ''?''
      then (case key of [] \<Rightarrow> False | x # xs \<Rightarrow> wild x \<and> glob_match_on wild ps xs)
      else (case key of [] \<Rightarrow> False | x # xs \<Rightarrow> x = p \<and> glob_match_on wild ps xs))"



text \<open>The source that \<open>patternToRegex\<close> puts between the anchors, and the atom that each
  character of the pattern stands for.\<close>

definition glob_atom :: "char \<Rightarrow> regex_atom" where
  "glob_atom c = (if c = CHR ''*'' then DotStar else if c = CHR ''?'' then Dot else Literal c)"

definition glob_source :: "string \<Rightarrow> string" where
  "glob_source p = question_to_dot (star_to_dot_star (escape_special p))"

section \<open>\<open>MemoryStore\<close>\<close>

record store_config =
  cfg_max :: "nat option"
  cfg_ttl :: "int option"
  cfg_circuitBreaker :: "circuit_breaker_config option"

text \<open>
  The class's fields. \<open>tagIndex\<close> and \<open>dependencyIndex\<close> are \<open>Map<string, Set<CacheKey>>\<close>;
  a bucket is the list of its keys in insertion order.
\<close>

record memory_store = base_store +
  cache :: "cache_entry lru_cache"
  tagIndex :: "string \<rightharpoonup> string list"
  dependencyIndex :: "string \<rightharpoonup> string list"

text \<open>The constructor: \<open>max: config.max || 1000\<close>, \<open>ttl: config.ttl ? config.ttl * 1000 : undefined\<close>.\<close>

definition MemoryStore_new :: "store_config \<Rightarrow> memory_store" where
  "MemoryStore_new config =
     \<lparr>circuitBreaker = circuitBreaker (base_store_init (cfg_circuitBreaker config)),
      circuitBreakerConfig = circuitBreakerConfig (base_store_init (cfg_circuitBreaker config)),
      cache = \<lparr>lru_max = (case cfg_max config of None \<Rightarrow> 1000
                           | Some m \<Rightarrow> if m = 0 then 1000 else m),
               lru_ttl = (case cfg_ttl config of None \<Rightarrow> 0 | Some t \<Rightarrow> t * 1000),
               lru_items = []\<rparr>,
      tagIndex = Map.empty,
      dependencyIndex = Map.empty\<rparr>"

text \<open>One step of the iteration in \<open>updateIndexes\<close> and \<open>cleanupIndexes\<close>, on either index.\<close>

definition index_add :: "string \<Rightarrow> string \<Rightarrow> (string \<rightharpoonup> string list) \<Rightarrow> (string \<rightharpoonup> string list)" where
  "index_add key name idx =
     (case idx name of
        None \<Rightarrow> idx(name \<mapsto> [key])
      | Some ks \<Rightarrow> if key \<in> set ks then idx else idx(name \<mapsto> ks @ [key]))"

definition index_remove :: "string \<Rightarrow> string \<Rightarrow> (string \<rightharpoonup> string list) \<Rightarrow> (string \<rightharpoonup> string list)" where
  "index_remove key name idx =
     (case idx name of
        None \<Rightarrow> idx
      | Some ks \<Rightarrow>
          if removeAll key ks = [] then idx(name := None)
          else idx(name \<mapsto> removeAll key ks))"

definition updateIndexes :: "string \<Rightarrow> cache_entry \<Rightarrow> memory_store \<Rightarrow> memory_store" where
  "updateIndexes key entry s =
     s\<lparr>tagIndex :=
         (case tags entry of None \<Rightarrow> tagIndex s
          | Some ts \<Rightarrow> fold (index_add key) ts (tagIndex s)),
       dependencyIndex :=
         (case dependencies entry of None \<Rightarrow> dependencyIndex s
          | Some ds \<Rightarrow> fold (index_add key) ds (dependencyIndex s))\<rparr>"

definition cleanupIndexes :: "string \<Rightarrow> cache_entry \<Rightarrow> memory_store \<Rightarrow> memory_store" where
  "cleanupIndexes key entry s =
     s\<lparr>tagIndex :=
         (case tags entry of None \<Rightarrow> tagIndex s
          | Some ts \<Rightarrow> fold (index_remove key) ts (tagIndex s)),
       dependencyIndex :=
         (case dependencies entry of None \<Rightarrow> dependencyIndex s
          | Some ds \<Rightarrow> fold (index_remove key) ds (dependencyIndex s))\<rparr>"

text \<open>The \<open>dispose\<close> hook, run on everything a cache operation disposed of.\<close>

definition dispose_all :: "(string \<times> cache_entry) list \<Rightarrow> memory_store \<Rightarrow> memory_store" where
  "dispose_all ds s = fold (\<lambda>p. cleanupIndexes (fst p) (snd p)) ds s"

definition cache_delete :: "string \<Rightarrow> memory_store \<Rightarrow> bool \<times> memory_store" where
  "cache_delete k s =
     (case lru_delete k (cache s) of (b, ds, c) \<Rightarrow> (b, dispose_all ds (s\<lparr>cache := c\<rparr>)))"

text \<open>\<open>entry.lastAccessed = Date.now()\<close> on the entry object that the cache holds.\<close>

definition touch_entry :: "int \<Rightarrow> string \<Rightarrow> cache_entry lru_cache \<Rightarrow> cache_entry lru_cache" where
  "touch_entry now k c =
     c\<lparr>lru_items :=
         map (\<lambda>p. if fst p = k
                  then (fst p, (snd p)\<lparr>item_value := (item_value (snd p))\<lparr>lastAccessed := now\<rparr>\<rparr>)
                  else p)
             (lru_items c)\<rparr>"

text \<open>
  The methods. Each is the body it hands to \<open>executeWithCircuitBreaker\<close> and the wrapped
  call; \<open>now\<close> is the clock during the call.
\<close>

definition get_body :: "int \<Rightarrow> cache_key \<Rightarrow> (memory_store, cache_value) operation" where
  "get_body now key s =
     (case validateKey key of
        Inl e \<Rightarrow> (Inl e, s)
      | Inr k \<Rightarrow>
          (case lru_get now k (cache s) of
             (r, ds, c) \<Rightarrow>
               (let s1 = dispose_all ds (s\<lparr>cache := c\<rparr>)
                in case r of
                     None \<Rightarrow> (Inr Null, s1)
                   | Some entry \<Rightarrow>
                       if isExpired now (createdAt entry) (ttl entry)
                       then (Inr Null, snd (cache_delete k s1))
                       else (Inr (entry_value entry),
                             s1\<lparr>cache := touch_entry now k (cache s1)\<rparr>))))"

definition MemoryStore_get :: "int \<Rightarrow> cache_key \<Rightarrow> (memory_store, cache_value) operation" where
  "MemoryStore_get now key = executeWithCircuitBreaker now now now (get_body now key)"

definition set_body ::
  "int \<Rightarrow> cache_key \<Rightarrow> cache_value \<Rightarrow> cache_options option \<Rightarrow> (memory_store, unit) operation" where
  "set_body now key v options s =
     (case validateKey key of
        Inl e \<Rightarrow> (Inl e, s)
      | Inr k \<Rightarrow>
          (case validateValue v of
             Inl e \<Rightarrow> (Inl e, s)
           | Inr _ \<Rightarrow>
               (let entry = \<lparr>entry_value = v,
                             ttl = Option.bind options opt_ttl,
                             createdAt = now,
                             lastAccessed = now,
                             tags = Option.bind options opt_tags,
                             dependencies = Option.bind options opt_dependencies,
                             compressed = Option.bind options opt_compress,
                             serialized = Option.bind options opt_serialize\<rparr>;
                    life = (case Option.bind options opt_ttl of
                              None \<Rightarrow> None
                            | Some t \<Rightarrow> if t \<noteq> 0 then Some (t * 1000) else None)
                in case lru_set now k entry life (cache s) of
                     (ds, c) \<Rightarrow> (Inr (), updateIndexes k entry (dispose_all ds (s\<lparr>cache := c\<rparr>))))))"

definition MemoryStore_set ::
  "int \<Rightarrow> cache_key \<Rightarrow> cache_value \<Rightarrow> cache_options option \<Rightarrow> (memory_store, unit) operation" where
  "MemoryStore_set now key v options =
     executeWithCircuitBreaker now now now (set_body now key v options)"

definition del_body :: "cache_key \<Rightarrow> (memory_store, bool) operation" where
  "del_body key s =
     (case validateKey key of
        Inl e \<Rightarrow> (Inl e, s)
      | Inr k \<Rightarrow> (case cache_delete k s of (b, s1) \<Rightarrow> (Inr b, s1)))"

definition MemoryStore_del :: "int \<Rightarrow> cache_key \<Rightarrow> (memory_store, bool) operation" where
  "MemoryStore_del now key = executeWithCircuitBreaker now now now (del_body key)"

fun mget_loop ::
  "int \<Rightarrow> cache_key list \<Rightarrow> (memory_store, cache_value list) operation" where
  "mget_loop now [] s = (Inr [], s)"
| "mget_loop now (key # keys) s =
     (case MemoryStore_get now key s of
        (Inl e, s1) \<Rightarrow> (Inl e, s1)
      | (Inr v, s1) \<Rightarrow>
          (case mget_loop now keys s1 of
             (Inl e, s2) \<Rightarrow> (Inl e, s2)
           | (Inr vs, s2) \<Rightarrow> (Inr (v # vs), s2)))"

definition MemoryStore_mget ::
  "int \<Rightarrow> cache_key list \<Rightarrow> (memory_store, cache_value list) operation" where
  "MemoryStore_mget now keys = executeWithCircuitBreaker now now now (mget_loop now keys)"

fun mset_loop ::
  "int \<Rightarrow> cache_options option \<Rightarrow> (cache_key \<times> cache_value) list \<Rightarrow> (memory_store, unit) operation" where
  "mset_loop now options [] s = (Inr (), s)"
| "mset_loop now options (kv # kvs) s =
     (case MemoryStore_set now (fst kv) (snd kv) options s of
        (Inl e, s1) \<Rightarrow> (Inl e, s1)
      | (Inr _, s1) \<Rightarrow> mset_loop now options kvs s1)"

definition MemoryStore_mset ::
  "int \<Rightarrow> (cache_key \<times> cache_value) list \<Rightarrow> cache_options option \<Rightarrow> (memory_store, unit) operation" where
  "MemoryStore_mset now kvs options =
     executeWithCircuitBreaker now now now (mset_loop now options kvs)"

definition clear_body :: "(memory_store, unit) operation" where
  "clear_body s =
     (case lru_clear (cache s) of
        (ds, c) \<Rightarrow>
          (Inr (), (dispose_all ds (s\<lparr>cache := c\<rparr>))
                     \<lparr>tagIndex := Map.empty, dependencyIndex := Map.empty\<rparr>))"

definition MemoryStore_clear :: "int \<Rightarrow> (memory_store, unit) operation" where
  "MemoryStore_clear now = executeWithCircuitBreaker now now now clear_body"

text \<open>\<open>close\<close> does the same without the breaker.\<close>

definition MemoryStore_close :: "memory_store \<Rightarrow> memory_store" where
  "MemoryStore_close s = snd (clear_body s)"

definition exists_body :: "int \<Rightarrow> cache_key \<Rightarrow> (memory_store, bool) operation" where
  "exists_body now key s =
     (case validateKey key of
        Inl e \<Rightarrow> (Inl e, s)
      | Inr k \<Rightarrow> (case lru_has now k (cache s) of (b, c) \<Rightarrow> (Inr b, s\<lparr>cache := c\<rparr>)))"

definition MemoryStore_exists :: "int \<Rightarrow> cache_key \<Rightarrow> (memory_store, bool) operation" where
  "MemoryStore_exists now key = executeWithCircuitBreaker now now now (exists_body now key)"

text \<open>\<open>keys(pattern)\<close>: \<open>!pattern\<close> holds for \<open>undefined\<close> and for the empty string.\<close>

definition keys_body :: "int \<Rightarrow> string option \<Rightarrow> (memory_store, string list) operation" where
  "keys_body now pattern s =
     (let allKeys = lru_keys now (cache s)
      in case pattern of
           None \<Rightarrow> (Inr allKeys, s)
         | Some p \<Rightarrow>
             if p = [] then (Inr allKeys, s)
             else (Inr (filter (\<lambda>key. regex_test (patternToRegex p) key = Some True) allKeys), s))"

definition MemoryStore_keys :: "int \<Rightarrow> string option \<Rightarrow> (memory_store, string list) operation" where
  "MemoryStore_keys now pattern = executeWithCircuitBreaker now now now (keys_body now pattern)"

text \<open>
  The loop \<open>for (const key of keys) if (this.cache.delete(key)) count++\<close>. In the two index
  invalidations \<open>keys\<close> is the bucket itself, which \<open>dispose\<close> changes while the loop runs;
  \<open>dispose\<close> takes from a bucket only the key being deleted, which the loop has already
  visited, so the loop visits the keys the bucket had at the start.
\<close>

fun delete_keys :: "string list \<Rightarrow> memory_store \<Rightarrow> nat \<times> memory_store" where
  "delete_keys [] s = (0, s)"
| "delete_keys (k # ks) s =
     (case cache_delete k s of
        (b, s1) \<Rightarrow> (case delete_keys ks s1 of (n, s2) \<Rightarrow> ((if b then 1 else 0) + n, s2)))"

definition invalidateByTag_body :: "string \<Rightarrow> (memory_store, nat) operation" where
  "invalidateByTag_body tag s =
     (case tagIndex s tag of
        None \<Rightarrow> (Inr 0, s)
      | Some keys \<Rightarrow>
          (case delete_keys keys s of
             (count, s1) \<Rightarrow> (Inr count, s1\<lparr>tagIndex := (tagIndex s1)(tag := None)\<rparr>)))"

definition MemoryStore_invalidateByTag :: "int \<Rightarrow> string \<Rightarrow> (memory_store, nat) operation" where
  "MemoryStore_invalidateByTag now tag =
     executeWithCircuitBreaker now now now (invalidateByTag_body tag)"

definition invalidateByPattern_body :: "int \<Rightarrow> string \<Rightarrow> (memory_store, nat) operation" where
  "invalidateByPattern_body now pattern s =
     (case MemoryStore_keys now (Some pattern) s of
        (Inl e, s1) \<Rightarrow> (Inl e, s1)
      | (Inr keys, s1) \<Rightarrow> (case delete_keys keys s1 of (count, s2) \<Rightarrow> (Inr count, s2)))"

definition MemoryStore_invalidateByPattern :: "int \<Rightarrow> string \<Rightarrow> (memory_store, nat) operation" where
  "MemoryStore_invalidateByPattern now pattern =
     executeWithCircuitBreaker now now now (invalidateByPattern_body now pattern)"

definition invalidateByDependency_body :: "string \<Rightarrow> (memory_store, nat) operation" where
  "invalidateByDependency_body dependency s =
     (case dependencyIndex s dependency of
        None \<Rightarrow> (Inr 0, s)
      | Some keys \<Rightarrow>
          (case delete_keys keys s of
             (count, s1) \<Rightarrow>
               (Inr count, s1\<lparr>dependencyIndex := (dependencyIndex s1)(dependency := None)\<rparr>)))"

definition MemoryStore_invalidateByDependency :: "int \<Rightarrow> string \<Rightarrow> (memory_store, nat) operation" where
  "MemoryStore_invalidateByDependency now dependency =
     executeWithCircuitBreaker now now now (invalidateByDependency_body dependency)"



section \<open>Stores as the orchestration layer sees them\<close>

text \<open>
  \<open>LayeredStrategy\<close>, \<open>CacheManager\<close> and the invalidators hold a list of \<open>IStore\<close> objects
  and know nothing of their classes. An object is what its methods do: a method call, made
  at clock reading \<open>now\<close>, resolves or rejects and leaves the object in its next state.
  \<open>st_name\<close> is \<open>store.constructor.name\<close>; \<open>invalidateByDependency\<close> is not part of \<open>IStore\<close>
  and a store may lack it.
\<close>

codatatype istore = IStore
  (st_name: string)
  (st_get: "int \<Rightarrow> cache_key \<Rightarrow> (cache_error + cache_value) \<times> istore")
  (st_set: "int \<Rightarrow> cache_key \<Rightarrow> cache_value \<Rightarrow> cache_options option
              \<Rightarrow> (cache_error + unit) \<times> istore")
  (st_mset: "int \<Rightarrow> (cache_key \<times> cache_value) list \<Rightarrow> cache_options option
              \<Rightarrow> (cache_error + unit) \<times> istore")
  (st_exists: "int \<Rightarrow> cache_key \<Rightarrow> (cache_error + bool) \<times> istore")
  (st_keys: "int \<Rightarrow> string option \<Rightarrow> (cache_error + string list) \<times> istore")
  (st_invalidateByDependency: "(int \<Rightarrow> string \<Rightarrow> (cache_error + nat) \<times> istore) option")

text \<open>A \<open>MemoryStore\<close> as such an object.\<close>

primcorec memoryStore :: "memory_store \<Rightarrow> istore" where
  "memoryStore s = IStore
     ''MemoryStore''
     (\<lambda>now key. map_prod id memoryStore (MemoryStore_get now key s))
     (\<lambda>now key v options. map_prod id memoryStore (MemoryStore_set now key v options s))
     (\<lambda>now kvs options. map_prod id memoryStore (MemoryStore_mset now kvs options s))
     (\<lambda>now key. map_prod id memoryStore (MemoryStore_exists now key s))
     (\<lambda>now pattern. map_prod id memoryStore (MemoryStore_keys now pattern s))
     (Some (\<lambda>now dependency.
              map_prod id memoryStore (MemoryStore_invalidateByDependency now dependency s)))"

text \<open>A store of class \<open>name\<close> whose backend is down: every call rejects with the same error.\<close>

primcorec brokenStore :: "string \<Rightarrow> cache_error \<Rightarrow> istore" where
  "brokenStore name e = IStore
     name
     (\<lambda>now key. (Inl e, brokenStore name e))
     (\<lambda>now key v options. (Inl e, brokenStore name e))
     (\<lambda>now kvs options. (Inl e, brokenStore name e))
     (\<lambda>now key. (Inl e, brokenStore name e))
     (\<lambda>now pattern. (Inl e, brokenStore name e))
     None"


section \<open>\<open>LayeredStrategy\<close>\<close>

text \<open>The constructor sorts the stores by \<open>getStorePriority\<close>; JavaScript's sort is stable.\<close>

definition getStorePriority :: "istore \<Rightarrow> nat" where
  "getStorePriority store =
     (if st_name store = ''MemoryStore'' then 1
      else if st_name store = ''RedisStore'' then 2
      else if st_name store = ''MemcachedStore'' then 3
      else 999)"

definition LayeredStrategy_new :: "istore list \<Rightarrow> istore list" where
  "LayeredStrategy_new stores = sort_key getStorePriority stores"

text \<open>
  \<open>promoteValue(key, value, foundAtLevel)\<close>: \<open>set(key, value)\<close> on the stores before the one
  that answered; the \<open>catch\<close> on each promise drops a rejection.
\<close>

definition promoteValue :: "int \<Rightarrow> cache_key \<Rightarrow> cache_value \<Rightarrow> istore list \<Rightarrow> istore list" where
  "promoteValue now key v faster = map (\<lambda>store. snd (st_set store now key v None)) faster"

text \<open>
  The loop of \<open>get\<close>: \<open>faster\<close> holds the stores already asked, \<open>stores[0..i-1]\<close>. A store that
  rejects is skipped like one that answers \<open>null\<close>.
\<close>

fun get_from :: "int \<Rightarrow> cache_key \<Rightarrow> istore list \<Rightarrow> istore list \<Rightarrow> cache_value \<times> istore list" where
  "get_from now key faster [] = (Null, faster)"
| "get_from now key faster (store # slower) =
     (case st_get store now key of
        (Inr v, store1) \<Rightarrow>
          if v \<noteq> Null then (v, promoteValue now key v faster @ store1 # slower)
          else get_from now key (faster @ [store1]) slower
      | (Inl e, store1) \<Rightarrow> get_from now key (faster @ [store1]) slower)"

definition LayeredStrategy_get :: "int \<Rightarrow> cache_key \<Rightarrow> istore list \<Rightarrow> cache_value \<times> istore list" where
  "LayeredStrategy_get now key stores = get_from now key [] stores"

text \<open>
  The loop shared by \<open>set\<close> and \<open>mset\<close>: the call is made on every store in turn, and a
  rejection is logged with \<open>console.error\<close> and pushed to \<open>errors\<close>. The result is \<open>errors\<close>,
  each with the name of its store as the log line has it, and the stores afterwards.
\<close>

fun call_each ::
  "(istore \<Rightarrow> (cache_error + unit) \<times> istore) \<Rightarrow> istore list
     \<Rightarrow> (string \<times> cache_error) list \<times> istore list" where
  "call_each f [] = ([], [])"
| "call_each f (store # rest) =
     (case f store of
        (r, store1) \<Rightarrow>
          (case call_each f rest of
             (errors, rest1) \<Rightarrow>
               ((case r of Inl e \<Rightarrow> [(st_name store, e)] | Inr _ \<Rightarrow> []) @ errors,
                store1 # rest1)))"

text \<open>\<open>Array.prototype.join\<close>.\<close>

fun join :: "string \<Rightarrow> string list \<Rightarrow> string" where
  "join sep [] = []"
| "join sep [x] = x"
| "join sep (x # y # ys) = x @ sep @ join sep (y # ys)"

text \<open>
  \<open>set\<close> and \<open>mset\<close>: the outcome, the errors logged and the stores afterwards.
\<close>

definition LayeredStrategy_set ::
  "int \<Rightarrow> cache_key \<Rightarrow> cache_value \<Rightarrow> cache_options option \<Rightarrow> istore list
     \<Rightarrow> (cache_error + unit) \<times> (string \<times> cache_error) list \<times> istore list" where
  "LayeredStrategy_set now key v options stores =
     (case call_each (\<lambda>store. st_set store now key v options) stores of
        (errors, stores1) \<Rightarrow>
          (if length errors = length stores
           then Inl (PlainError (''Failed to set key '' @ key_text key @ '' in all stores: ''
                                  @ join '', '' (map (\<lambda>e. message (snd e)) errors)))
           else Inr (),
           errors, stores1))"

definition LayeredStrategy_mset ::
  "int \<Rightarrow> (cache_key \<times> cache_value) list \<Rightarrow> cache_options option \<Rightarrow> istore list
     \<Rightarrow> (cache_error + unit) \<times> (string \<times> cache_error) list \<times> istore list" where
  "LayeredStrategy_mset now kvs options stores =
     (case call_each (\<lambda>store. st_mset store now kvs options) stores of
        (errors, stores1) \<Rightarrow>
          (if length errors = length stores
           then Inl (PlainError (''Failed to execute mset in all stores: ''
                                  @ join '', '' (map (\<lambda>e. message (snd e)) errors)))
           else Inr (),
           errors, stores1))"


text \<open>A store rejects the call \<open>f\<close>.\<close>

definition rejected_by :: "(istore \<Rightarrow> (cache_error + unit) \<times> istore) \<Rightarrow> istore \<Rightarrow> bool" where
  "rejected_by f store = isl (fst (f store))"

section \<open>\<open>CacheManager.exists\<close>\<close>

text \<open>
  \<open>MetricsCollector.withMetrics\<close> on the counters it changes: the operation is counted, a
  rejection is counted as an error and thrown again.
\<close>

record metrics_collector =
  m_operations :: nat
  m_errors :: nat
  m_totalResponseTime :: int

definition withMetrics ::
  "int \<Rightarrow> (cache_error + 'a) \<Rightarrow> metrics_collector \<Rightarrow> (cache_error + 'a) \<times> metrics_collector" where
  "withMetrics duration outcome m =
     (case outcome of
        Inr result \<Rightarrow>
          (Inr result, m\<lparr>m_operations := m_operations m + 1,
                          m_totalResponseTime := m_totalResponseTime m + duration\<rparr>)
      | Inl e \<Rightarrow>
          (Inl e, m\<lparr>m_operations := m_operations m + 1,
                     m_totalResponseTime := m_totalResponseTime m + duration,
                     m_errors := m_errors m + 1\<rparr>))"

text \<open>
  The constructor hands \<open>this.stores\<close> to \<open>new LayeredStrategy\<close>, whose \<open>stores.sort\<close> sorts
  that very array: from then on the manager's own list is in priority order.
\<close>

definition CacheManager_stores :: "istore list \<Rightarrow> istore list" where
  "CacheManager_stores configured = LayeredStrategy_new configured"

text \<open>The loop of \<open>exists\<close>: a store that rejects is logged and passed over.\<close>

fun exists_in :: "int \<Rightarrow> cache_key \<Rightarrow> istore list \<Rightarrow> bool \<times> istore list" where
  "exists_in now key [] = (False, [])"
| "exists_in now key (store # rest) =
     (case st_exists store now key of
        (Inr True, store1) \<Rightarrow> (True, store1 # rest)
      | (_, store1) \<Rightarrow>
          (case exists_in now key rest of (found, rest1) \<Rightarrow> (found, store1 # rest1)))"

definition CacheManager_exists ::
  "int \<Rightarrow> int \<Rightarrow> cache_key \<Rightarrow> istore list \<times> metrics_collector
     \<Rightarrow> (cache_error + bool) \<times> istore list \<times> metrics_collector" where
  "CacheManager_exists now duration key mgr =
     (case exists_in now key (fst mgr) of
        (found, stores1) \<Rightarrow>
          (case withMetrics duration (Inr found) (snd mgr) of
             (outcome, m) \<Rightarrow> (outcome, stores1, m)))"


text \<open>
  The store of the repository's test of pattern invalidation (\<open>max: 100\<close>, \<open>ttl: 300\<close>) after
  \<open>set('user:1', 'user1')\<close>, \<open>set('user:2', 'user2')\<close> and \<open>set('post:1', 'post1')\<close> at time 1000.
\<close>

definition test_config :: store_config where
  "test_config = \<lparr>cfg_max = Some 100, cfg_ttl = Some 300, cfg_circuitBreaker = None\<rparr>"

definition three_keys_store :: memory_store where
  "three_keys_store =
     snd (MemoryStore_set 1000 (KeyString ''post:1'') (Primitive ''post1'') None
       (snd (MemoryStore_set 1000 (KeyString ''user:2'') (Primitive ''user2'') None
         (snd (MemoryStore_set 1000 (KeyString ''user:1'') (Primitive ''user1'') None
           (MemoryStore_new test_config))))))"


text \<open>Two stores whose backends are down.\<close>

definition redis_down :: istore where
  "redis_down = brokenStore ''RedisStore'' (StoreError ''redis down'')"

definition memcached_down :: istore where
  "memcached_down = brokenStore ''MemcachedStore'' (StoreError ''memcached down'')"

section \<open>Notions for the proofs\<close>

text \<open>
  The breaker would let a call through at any time: there is none, or it is not open. An
  operation body keeps the breaker when it leaves the two breaker fields as they are.
\<close>

definition breaker_closed :: "'z base_store_scheme \<Rightarrow> bool" where
  "breaker_closed s =
     (case (circuitBreaker s, circuitBreakerConfig s) of
        (Some cb, Some cfg) \<Rightarrow> \<not> isOpen cb
      | _ \<Rightarrow> True)"

definition keeps_breaker :: "('z base_store_scheme, 'a) operation \<Rightarrow> bool" where
  "keeps_breaker body =
     (\<forall>s. circuitBreaker (snd (body s)) = circuitBreaker s
          \<and> circuitBreakerConfig (snd (body s)) = circuitBreakerConfig s)"

text \<open>
  The tag and dependency indexes against the cache. \<open>entry_names field c k\<close> is what the
  entry held under \<open>k\<close> lists in \<open>field\<close> (its tags or its dependencies), \<open>None\<close> when no entry
  is held. A bucket is in order when it is not empty and each of its keys is held with an
  entry that lists the bucket's name. \<open>index_invariant\<close> is the invariant that every
  operation keeps: the cache holds each key once, and both indexes are in order.
\<close>

definition entry_names ::
  "(cache_entry \<Rightarrow> string list option) \<Rightarrow> cache_entry lru_cache \<Rightarrow> string \<Rightarrow> string list option option" where
  "entry_names field c k = map_option (\<lambda>it. field (item_value it)) (map_of (lru_items c) k)"

definition bucket_ok :: "(string \<Rightarrow> string list option option) \<Rightarrow> (string \<rightharpoonup> string list) \<Rightarrow> bool" where
  "bucket_ok names idx =
     (\<forall>name ks. idx name = Some ks \<longrightarrow>
        ks \<noteq> [] \<and> (\<forall>k \<in> set ks. \<exists>ns. names k = Some (Some ns) \<and> name \<in> set ns))"

definition index_invariant :: "memory_store \<Rightarrow> bool" where
  "index_invariant s =
     (distinct (map fst (lru_items (cache s)))
      \<and> bucket_ok (entry_names tags (cache s)) (tagIndex s)
      \<and> bucket_ok (entry_names dependencies (cache s)) (dependencyIndex s))"

text \<open>The iteration of \<open>updateIndexes\<close> and \<open>cleanupIndexes\<close> over an optional list of names.\<close>

definition add_names :: "string \<Rightarrow> string list option \<Rightarrow> (string \<rightharpoonup> string list) \<Rightarrow> (string \<rightharpoonup> string list)" where
  "add_names key names idx = (case names of None \<Rightarrow> idx | Some ns \<Rightarrow> fold (index_add key) ns idx)"

definition remove_names :: "string \<Rightarrow> string list option \<Rightarrow> (string \<rightharpoonup> string list) \<Rightarrow> (string \<rightharpoonup> string list)" where
  "remove_names key names idx = (case names of None \<Rightarrow> idx | Some ns \<Rightarrow> fold (index_remove key) ns idx)"

text \<open>
  The calls a client can make on a \<open>MemoryStore\<close>, the store after one call made at time
  \<open>now\<close>, and the store after a sequence of calls. The states \<open>run_calls calls (MemoryStore_new
  config)\<close> are the reachable ones.
\<close>

datatype store_call =
    CallGet cache_key
  | CallSet cache_key cache_value "cache_options option"
  | CallDel cache_key
  | CallMget "cache_key list"
  | CallMset "(cache_key \<times> cache_value) list" "cache_options option"
  | CallClear
  | CallExists cache_key
  | CallKeys "string option"
  | CallClose
  | CallInvalidateByTag string
  | CallInvalidateByPattern string
  | CallInvalidateByDependency string

fun perform :: "int \<Rightarrow> store_call \<Rightarrow> memory_store \<Rightarrow> memory_store" where
  "perform now (CallGet key) s = snd (MemoryStore_get now key s)"
| "perform now (CallSet key v options) s = snd (MemoryStore_set now key v options s)"
| "perform now (CallDel key) s = snd (MemoryStore_del now key s)"
| "perform now (CallMget keys) s = snd (MemoryStore_mget now keys s)"
| "perform now (CallMset kvs options) s = snd (MemoryStore_mset now kvs options s)"
| "perform now CallClear s = snd (MemoryStore_clear now s)"
| "perform now (CallExists key) s = snd (MemoryStore_exists now key s)"
| "perform now (CallKeys pattern) s = snd (MemoryStore_keys now pattern s)"
| "perform now CallClose s = MemoryStore_close s"
| "perform now (CallInvalidateByTag tag) s = snd (MemoryStore_invalidateByTag now tag s)"
| "perform now (CallInvalidateByPattern pattern) s = snd (MemoryStore_invalidateByPattern now pattern s)"
| "perform now (CallInvalidateByDependency d) s = snd (MemoryStore_invalidateByDependency now d s)"

fun run_calls :: "(int \<times> store_call) list \<Rightarrow> memory_store \<Rightarrow> memory_store" where
  "run_calls [] s = s"
| "run_calls (c # cs) s = run_calls cs (perform (fst c) (snd c) s)"




text \<open>
  Every entry that cache \<open>c'\<close> holds is held by \<open>c\<close> under the same key with the same value,
  creation time and lifetimes.
\<close>

definition same_entries :: "cache_entry lru_cache \<Rightarrow> cache_entry lru_cache \<Rightarrow> bool" where
  "same_entries c c' =
     (\<forall>k it'. map_of (lru_items c') k = Some it' \<longrightarrow>
        (\<exists>it. map_of (lru_items c) k = Some it
           \<and> entry_value (item_value it') = entry_value (item_value it)
           \<and> ttl (item_value it') = ttl (item_value it)
           \<and> createdAt (item_value it') = createdAt (item_value it)
           \<and> item_ttl it' = item_ttl it))"

text \<open>A sequence of reads, each with its time.\<close>

definition reads :: "(int \<times> cache_key) list \<Rightarrow> (int \<times> store_call) list" where
  "reads rs = map (\<lambda>r. (fst r, CallGet (snd r))) rs"

text \<open>The test store (default lifetime 300 s) after \<open>set('k', 'v')\<close> at time 1000.\<close>

definition default_ttl_store :: memory_store where
  "default_ttl_store =
     snd (MemoryStore_set 1000 (KeyString ''k'') (Primitive ''v'') None (MemoryStore_new test_config))"

text \<open>The same store after \<open>set('k', 'v', {ttl: 10})\<close> at time 1000.\<close>

definition own_ttl_store :: memory_store where
  "own_ttl_store =
     snd (MemoryStore_set 1000 (KeyString ''k'') (Primitive ''v'')
            (Some \<lparr>opt_ttl = Some 10, opt_tags = None, opt_dependencies = None,
                   opt_compress = None, opt_serialize = None\<rparr>)
            (MemoryStore_new test_config))"


section \<open>\<open>DependencyInvalidator\<close>\<close>

text \<open>\<open>InvalidationOptions\<close>; a missing option is false.\<close>

record invalidation_options =
  cascade :: bool
  async :: bool

text \<open>
  The \<open>stores.map\<close> of \<open>invalidateByDependency\<close>: a store that has the method is asked, a
  store that rejects counts as 0. The result is the list \<open>results\<close>.
\<close>

fun invalidate_each :: "int \<Rightarrow> string \<Rightarrow> istore list \<Rightarrow> nat list \<times> istore list" where
  "invalidate_each now dependency [] = ([], [])"
| "invalidate_each now dependency (store # rest) =
     (case invalidate_each now dependency rest of
        (results, rest1) \<Rightarrow>
          (case st_invalidateByDependency store of
             None \<Rightarrow> (0 # results, store # rest1)
           | Some invalidate \<Rightarrow>
               (case invalidate now dependency of
                  (Inr count, store1) \<Rightarrow> (count # results, store1 # rest1)
                | (Inl e, store1) \<Rightarrow> (0 # results, store1 # rest1))))"

text \<open>
  What \<open>findChildDependencies\<close> takes from one value: when the value is an object whose
  \<open>dependencies\<close> include the parent, every other identifier is added to the set
  \<open>childDependencies\<close>, kept in insertion order.
\<close>

fun listed_dependencies :: "cache_value \<Rightarrow> string list option" where
  "listed_dependencies (Object payload (DependencyArray ds)) = Some ds"
| "listed_dependencies (Object payload (DependencyValue d)) = (if d = [] then None else Some [d])"
| "listed_dependencies v = None"

definition set_add :: "string \<Rightarrow> string list \<Rightarrow> string list" where
  "set_add x xs = (if x \<in> set xs then xs else xs @ [x])"

definition add_children :: "string \<Rightarrow> cache_value \<Rightarrow> string list \<Rightarrow> string list" where
  "add_children parent v children =
     (case listed_dependencies v of
        None \<Rightarrow> children
      | Some ds \<Rightarrow>
          if parent \<in> set ds
          then fold (\<lambda>dep acc. if dep \<noteq> parent then set_add dep acc else acc) ds children
          else children)"

text \<open>The inner loop over the keys of one store; a rejection ends the work on that store.\<close>

fun scan_keys ::
  "int \<Rightarrow> string \<Rightarrow> string list \<Rightarrow> istore \<Rightarrow> string list \<Rightarrow> string list \<times> istore" where
  "scan_keys now parent [] store children = (children, store)"
| "scan_keys now parent (key # keys) store children =
     (case st_get store now (KeyString key) of
        (Inl e, store1) \<Rightarrow> (children, store1)
      | (Inr v, store1) \<Rightarrow> scan_keys now parent keys store1 (add_children parent v children))"

fun scan_stores ::
  "int \<Rightarrow> string \<Rightarrow> istore list \<Rightarrow> string list \<Rightarrow> string list \<times> istore list" where
  "scan_stores now parent [] children = (children, [])"
| "scan_stores now parent (store # rest) children =
     (case st_keys store now (Some ''*'') of
        (Inl e, store1) \<Rightarrow>
          (case scan_stores now parent rest children of
             (children1, rest1) \<Rightarrow> (children1, store1 # rest1))
      | (Inr keys, store1) \<Rightarrow>
          (case scan_keys now parent keys store1 children of
             (children1, store2) \<Rightarrow>
               (case scan_stores now parent rest children1 of
                  (children2, rest1) \<Rightarrow> (children2, store2 # rest1))))"

definition findChildDependencies :: "int \<Rightarrow> string \<Rightarrow> istore list \<Rightarrow> string list \<times> istore list" where
  "findChildDependencies now parentDependency stores = scan_stores now parentDependency stores []"

text \<open>
  The loop of \<open>cascadeInvalidation\<close> over the children; \<open>recurse\<close> is the call it makes for
  each child, and \<open>None\<close> stands for a call that does not return.
\<close>

fun for_each_child ::
  "(string \<Rightarrow> 'w \<Rightarrow> (nat \<times> 'w) option) \<Rightarrow> string list \<Rightarrow> 'w \<Rightarrow> (nat \<times> 'w) option" where
  "for_each_child recurse [] w = Some (0, w)"
| "for_each_child recurse (child # children) w =
     (case recurse child w of
        None \<Rightarrow> None
      | Some (n, w1) \<Rightarrow>
          (case for_each_child recurse children w1 of
             None \<Rightarrow> None
           | Some (m, w2) \<Rightarrow> Some (n + m, w2)))"

definition cascadeInvalidation ::
  "(string \<Rightarrow> istore list \<Rightarrow> (nat \<times> istore list) option) \<Rightarrow> int \<Rightarrow> string \<Rightarrow> istore list
     \<Rightarrow> (nat \<times> istore list) option" where
  "cascadeInvalidation recurse now dependency stores =
     (case findChildDependencies now dependency stores of
        (childDependencies, stores1) \<Rightarrow>
          if childDependencies = [] then Some (0, stores1)
          else for_each_child recurse childDependencies stores1)"

text \<open>
  \<open>invalidateByDependency\<close> of \<open>src/invalidation/DependencyInvalidator.ts\<close>. It and
  \<open>cascadeInvalidation\<close> call each other; the first argument bounds the depth of these calls,
  and \<open>None\<close> says that the bound was reached. With \<open>async\<close> the stores are still asked, and
  the count returned is 0.
\<close>

primrec invalidateByDependency ::
  "nat \<Rightarrow> int \<Rightarrow> invalidation_options \<Rightarrow> string \<Rightarrow> istore list \<Rightarrow> (nat \<times> istore list) option" where
  "invalidateByDependency 0 now options dependency stores = None"
| "invalidateByDependency (Suc depth) now options dependency stores =
     (case invalidate_each now dependency stores of
        (results, stores1) \<Rightarrow>
          if async options then Some (0, stores1)
          else if cascade options
          then (case cascadeInvalidation
                       (invalidateByDependency depth now (options\<lparr>cascade := True\<rparr>))
                       now dependency stores1 of
                  None \<Rightarrow> None
                | Some (n, stores2) \<Rightarrow> Some (sum_list results + n, stores2))
          else Some (sum_list results, stores1))"

text \<open>
  The test store after \<open>set('report', {dependencies: ['A', 'B']})\<close> at time 1000: the value
  depends on \<open>A\<close> and on \<open>B\<close>.
\<close>

definition cyclic_store :: memory_store where
  "cyclic_store =
     snd (MemoryStore_set 1000 (KeyString ''report'')
            (Object ''report'' (DependencyArray [''A'', ''B''])) None (MemoryStore_new test_config))"

definition cyclic_store_read :: memory_store where
  "cyclic_store_read = snd (MemoryStore_get 2000 (KeyString ''report'') cyclic_store)"

definition cascading :: invalidation_options where
  "cascading = \<lparr>cascade = True, async = False\<rparr>"

text \<open>
  The revised \<open>DependencyInvalidator\<close> (\<open>src/unnamed/part_008\<close>), which the repository's fix
  report describes under BUG-009. One top-level call owns a set \<open>visited\<close>, here with the
  lines written by \<open>console.warn\<close> and the stores.
\<close>

record invalidation_run =
  visited :: "string list"
  warnings :: "string list"
  run_stores :: "istore list"

definition cascadeInvalidation_revised ::
  "(string \<Rightarrow> invalidation_run \<Rightarrow> (nat \<times> invalidation_run) option) \<Rightarrow> int \<Rightarrow> string
     \<Rightarrow> invalidation_run \<Rightarrow> (nat \<times> invalidation_run) option" where
  "cascadeInvalidation_revised recurse now dependency w =
     (case findChildDependencies now dependency (run_stores w) of
        (childDependencies, stores1) \<Rightarrow>
          if childDependencies = [] then Some (0, w\<lparr>run_stores := stores1\<rparr>)
          else for_each_child recurse childDependencies (w\<lparr>run_stores := stores1\<rparr>))"

primrec invalidateByDependencyInternal ::
  "nat \<Rightarrow> int \<Rightarrow> invalidation_options \<Rightarrow> string \<Rightarrow> invalidation_run
     \<Rightarrow> (nat \<times> invalidation_run) option" where
  "invalidateByDependencyInternal 0 now options dependency w = None"
| "invalidateByDependencyInternal (Suc depth) now options dependency w =
     (if dependency \<in> set (visited w)
      then Some (0, w\<lparr>warnings := warnings w
                        @ [''Circular dependency detected: '' @ dependency
                           @ ''. Skipping to prevent infinite recursion.'']\<rparr>)
      else
        (case invalidate_each now dependency (run_stores w) of
           (results, stores1) \<Rightarrow>
             (let w1 = w\<lparr>visited := set_add dependency (visited w), run_stores := stores1\<rparr>
              in if async options then Some (0, w1)
                 else if cascade options
                 then (case cascadeInvalidation_revised
                              (invalidateByDependencyInternal depth now (options\<lparr>cascade := True\<rparr>))
                              now dependency w1 of
                         None \<Rightarrow> None
                       | Some (n, w2) \<Rightarrow> Some (sum_list results + n, w2))
                 else Some (sum_list results, w1))))"

definition invalidateByDependency_revised ::
  "nat \<Rightarrow> int \<Rightarrow> invalidation_options \<Rightarrow> string \<Rightarrow> istore list
     \<Rightarrow> (nat \<times> invalidation_run) option" where
  "invalidateByDependency_revised depth now options dependency stores =
     invalidateByDependencyInternal depth now options dependency
       \<lparr>visited = [], warnings = [], run_stores = stores\<rparr>"

text \<open>
  A set of store lists that the invalidation cannot leave, with all children it can find
  among the identifiers \<open>U\<close>.
\<close>

definition cascade_closed :: "int \<Rightarrow> string set \<Rightarrow> istore list set \<Rightarrow> bool" where
  "cascade_closed now U W =
     (\<forall>stores \<in> W. \<forall>d.
        snd (invalidate_each now d stores) \<in> W
        \<and> snd (findChildDependencies now d stores) \<in> W
        \<and> set (fst (findChildDependencies now d stores)) \<subseteq> U)"

text \<open>What a call that returns leaves behind, given where it started.\<close>

definition run_extends :: "istore list set \<Rightarrow> invalidation_run \<Rightarrow> invalidation_run \<Rightarrow> bool" where
  "run_extends W w w' =
     (run_stores w' \<in> W \<and> set (visited w) \<subseteq> set (visited w')
      \<and> (distinct (visited w) \<longrightarrow> distinct (visited w')))"

section \<open>Theorems\<close>

subsection \<open>The circuit breaker\<close>

text \<open>
  C2. The breaker's state machine. With no breaker or no configuration the operation runs
  directly. When the breaker is open and the clock has not reached \<open>nextAttemptTime\<close>, the
  call rejects with \<open>CircuitBreakerError\<close> and the store is unchanged whatever the operation
  is, so the operation is not invoked. When the clock has reached it, the call behaves as the
  same call on the breaker reset to closed with zero failures. On a closed breaker a
  resolving operation sets the counter to zero; a rejecting one increments the counter,
  records the failure time, opens the breaker with \<open>nextAttemptTime = now + timeout\<close> once the
  counter has reached the threshold, and rejects with the operation's own error.
\<close>

theorem circuit_breaker_state_machine:
  fixes s :: "'z base_store_scheme" and operation :: "('z base_store_scheme, 'a) operation"
  shows
  "(circuitBreaker s = None \<or> circuitBreakerConfig s = None \<longrightarrow>
      executeWithCircuitBreaker tCheck tFail tOpen operation s = operation s)
   \<and> (circuitBreaker s = Some cb \<and> circuitBreakerConfig s = Some cfg \<and> isOpen cb
        \<and> nextAttemptTime cb = Some t \<and> 0 \<le> tCheck \<and> tCheck < t \<longrightarrow>
      executeWithCircuitBreaker tCheck tFail tOpen operation s
        = (Inl (CircuitBreakerError ''Circuit breaker is open''), s))
   \<and> (circuitBreaker s = Some cb \<and> circuitBreakerConfig s = Some cfg \<and> isOpen cb
        \<and> nextAttemptTime cb = Some t \<and> t \<le> tCheck \<longrightarrow>
      executeWithCircuitBreaker tCheck tFail tOpen operation s
        = executeWithCircuitBreaker tCheck tFail tOpen operation
            (s\<lparr>circuitBreaker := Some (cb\<lparr>isOpen := False, failures := 0\<rparr>)\<rparr>))
   \<and> (circuitBreaker s = Some cb \<and> circuitBreakerConfig s = Some cfg \<and> \<not> isOpen cb
        \<and> operation s = (Inr r, s') \<and> circuitBreaker s' = Some cb' \<longrightarrow>
      executeWithCircuitBreaker tCheck tFail tOpen operation s
        = (Inr r, s'\<lparr>circuitBreaker := Some (cb'\<lparr>failures := 0\<rparr>)\<rparr>))
   \<and> (circuitBreaker s = Some cb \<and> circuitBreakerConfig s = Some cfg \<and> \<not> isOpen cb
        \<and> operation s = (Inl e, s') \<and> circuitBreaker s' = Some cb' \<longrightarrow>
      executeWithCircuitBreaker tCheck tFail tOpen operation s
        = (Inl e, s'\<lparr>circuitBreaker := Some
             (if errorThreshold cfg \<le> failures cb' + 1
              then cb'\<lparr>failures := failures cb' + 1, lastFailTime := Some tFail,
                       isOpen := True, nextAttemptTime := Some (tOpen + timeout cfg)\<rparr>
              else cb'\<lparr>failures := failures cb' + 1, lastFailTime := Some tFail\<rparr>)\<rparr>))"
  by (auto simp: executeWithCircuitBreaker_def attempt_blocked_def record_failure_def Let_def
           split: option.splits)

theorem circuit_breaker_state_machine_witness:
  "executeWithCircuitBreaker 5 5 5 failing_operation \<lparr>circuitBreaker = None, circuitBreakerConfig = None\<rparr>
     = failing_operation \<lparr>circuitBreaker = None, circuitBreakerConfig = None\<rparr>
   \<and> executeWithCircuitBreaker 1500 1500 1500 succeeding_operation (demo_store True 3 (Some 2000))
     = (Inl (CircuitBreakerError ''Circuit breaker is open''), demo_store True 3 (Some 2000))
   \<and> executeWithCircuitBreaker 2000 2000 2000 succeeding_operation (demo_store True 3 (Some 2000))
     = (Inr 42, demo_store False 0 (Some 2000))
   \<and> executeWithCircuitBreaker 7 8 9 failing_operation (demo_store False 2 None)
     = (Inl (StoreError ''backend down''),
        \<lparr>circuitBreaker = Some \<lparr>isOpen = True, failures = 3, lastFailTime = Some 8,
                                   nextAttemptTime = Some 1009\<rparr>,
         circuitBreakerConfig = Some demo_breaker_config\<rparr>)"
proof -
  let ?c = "\<lambda>opn n t. \<lparr>isOpen = opn, failures = n, lastFailTime = None, nextAttemptTime = t\<rparr>"
  note sm = circuit_breaker_state_machine
  have a: "executeWithCircuitBreaker 5 5 5 failing_operation \<lparr>circuitBreaker = None, circuitBreakerConfig = None\<rparr>
     = failing_operation \<lparr>circuitBreaker = None, circuitBreakerConfig = None\<rparr>"
    using circuit_breaker_state_machine
      [where s = "\<lparr>circuitBreaker = None, circuitBreakerConfig = None\<rparr>" and operation = failing_operation
         and tCheck = 5 and tFail = 5 and tOpen = 5]
    by simp
  have b: "executeWithCircuitBreaker 1500 1500 1500 succeeding_operation (demo_store True 3 (Some 2000))
     = (Inl (CircuitBreakerError ''Circuit breaker is open''), demo_store True 3 (Some 2000))"
    using circuit_breaker_state_machine
      [where s = "demo_store True 3 (Some 2000)" and operation = succeeding_operation
         and cb = "?c True 3 (Some 2000)" and cfg = demo_breaker_config and t = 2000
         and tCheck = 1500 and tFail = 1500 and tOpen = 1500]
    by (simp add: demo_store_def)
  have c: "executeWithCircuitBreaker 2000 2000 2000 succeeding_operation (demo_store True 3 (Some 2000))
     = (Inr 42, demo_store False 0 (Some 2000))"
    using circuit_breaker_state_machine
      [where s = "demo_store True 3 (Some 2000)" and operation = succeeding_operation
         and cb = "?c True 3 (Some 2000)" and cfg = demo_breaker_config and t = 2000
         and tCheck = 2000 and tFail = 2000 and tOpen = 2000]
      circuit_breaker_state_machine
      [where s = "demo_store False 0 (Some 2000)" and operation = succeeding_operation
         and cb = "?c False 0 (Some 2000)" and cfg = demo_breaker_config and r = "42::int"
         and s' = "demo_store False 0 (Some 2000)" and cb' = "?c False 0 (Some 2000)"
         and tCheck = 2000 and tFail = 2000 and tOpen = 2000]
    by (simp add: demo_store_def succeeding_operation_def)
  have d: "executeWithCircuitBreaker 7 8 9 failing_operation (demo_store False 2 None)
     = (Inl (StoreError ''backend down''),
        \<lparr>circuitBreaker = Some \<lparr>isOpen = True, failures = 3, lastFailTime = Some 8,
                                   nextAttemptTime = Some 1009\<rparr>,
         circuitBreakerConfig = Some demo_breaker_config\<rparr>)"
    using circuit_breaker_state_machine
      [where s = "demo_store False 2 None" and operation = failing_operation
         and cb = "?c False 2 None" and cfg = demo_breaker_config and e = "StoreError ''backend down''"
         and s' = "demo_store False 2 None" and cb' = "?c False 2 None"
         and tCheck = 7 and tFail = 8 and tOpen = 9]
    by (simp add: demo_store_def failing_operation_def demo_breaker_config_def)
  from a b c d show ?thesis by blast
qed




subsection \<open>Glob matching\<close>

lemma glob_source_Nil: "glob_source [] = []"
  by (simp add: glob_source_def escape_special_def star_to_dot_star_def question_to_dot_def)

lemma glob_source_Cons:
  "glob_source (c # p) =
     (if regex_special c then [CHR 0x5C, c]
      else if c = CHR ''*'' then ''.*''
      else if c = CHR ''?'' then ''.''
      else [c]) @ glob_source p"
  by (auto simp: glob_source_def escape_special_def star_to_dot_star_def question_to_dot_def
        regex_special_def)

lemma regex_atoms_escaped:
  "regex_special c \<Longrightarrow>
     regex_atoms (CHR 0x5C # c # rest) = map_option ((#) (Literal c)) (regex_atoms rest)"
  by simp

lemma regex_atoms_dot_star:
  "regex_atoms (CHR ''.'' # CHR ''*'' # rest) = map_option ((#) DotStar) (regex_atoms rest)"
  by simp

lemma regex_atoms_plain:
  "rest \<noteq> [] \<Longrightarrow> c \<noteq> CHR 0x5C \<Longrightarrow> \<not> (c = CHR ''.'' \<and> hd rest = CHR ''*'') \<Longrightarrow>
     regex_atoms (c # rest) =
       (case plain_atom c of None \<Rightarrow> None | Some a \<Rightarrow> map_option ((#) a) (regex_atoms rest))"
  by (cases rest) auto

lemma hd_glob_source_end:
  "hd (glob_source p @ ''$'') \<noteq> CHR ''*''"
  by (cases p) (auto simp: glob_source_Nil glob_source_Cons regex_special_def)

lemma regex_atoms_glob_source:
  "regex_atoms (glob_source p @ ''$'') = Some (map glob_atom p @ [InputEnd])"
proof (induction p)
  case Nil
  show ?case by (simp add: glob_source_Nil plain_atom_def)
next
  case (Cons c p)
  let ?rest = "glob_source p @ ''$''"
  have ne: "?rest \<noteq> []" by simp
  have hd: "hd ?rest \<noteq> CHR ''*''" by (rule hd_glob_source_end)
  consider (special) "regex_special c" | (star) "c = CHR ''*''" | (question) "c = CHR ''?''"
    | (plain) "\<not> regex_special c" "c \<noteq> CHR ''*''" "c \<noteq> CHR ''?''"
    by blast
  then show ?case
  proof cases
    case special
    then have "glob_source (c # p) @ ''$'' = CHR 0x5C # c # ?rest"
      by (simp add: glob_source_Cons)
    moreover have "c \<noteq> CHR ''*''" "c \<noteq> CHR ''?''"
      using special by (auto simp: regex_special_def)
    ultimately show ?thesis
      using special Cons.IH by (simp add: regex_atoms_escaped glob_atom_def del: regex_atoms.simps)
  next
    case star
    then have "glob_source (c # p) @ ''$'' = CHR ''.'' # CHR ''*'' # ?rest"
      by (simp add: glob_source_Cons regex_special_def)
    then show ?thesis
      using star Cons.IH by (simp add: regex_atoms_dot_star glob_atom_def del: regex_atoms.simps)
  next
    case question
    then have "glob_source (c # p) @ ''$'' = CHR ''.'' # ?rest"
      by (simp add: glob_source_Cons regex_special_def)
    moreover have "regex_atoms (CHR ''.'' # ?rest) = map_option ((#) Dot) (regex_atoms ?rest)"
      using regex_atoms_plain[OF ne, of "CHR ''.''"] hd by (simp add: plain_atom_def)
    ultimately show ?thesis
      using question Cons.IH by (simp add: glob_atom_def del: regex_atoms.simps)
  next
    case plain
    then have src: "glob_source (c # p) @ ''$'' = c # ?rest"
      by (simp add: glob_source_Cons)
    have c: "c \<noteq> CHR 0x5C" "c \<noteq> CHR ''.''" "c \<noteq> CHR ''^''" "c \<noteq> CHR ''$''"
      using plain(1) by (auto simp: regex_special_def)
    have "plain_atom c = Some (Literal c)"
      using plain c by (simp add: plain_atom_def)
    then have "regex_atoms (c # ?rest) = map_option ((#) (Literal c)) (regex_atoms ?rest)"
      using regex_atoms_plain[OF ne, of c] c by simp
    then show ?thesis
      using plain src Cons.IH by (simp add: glob_atom_def del: regex_atoms.simps)
  qed
qed

lemma regex_atoms_patternToRegex:
  "regex_atoms (patternToRegex p) = Some (InputStart # map glob_atom p @ [InputEnd])"
proof -
  let ?rest = "glob_source p @ ''$''"
  have "patternToRegex p = CHR ''^'' # ?rest"
    by (simp add: patternToRegex_def glob_source_def)
  moreover have "regex_atoms (CHR ''^'' # ?rest) = map_option ((#) InputStart) (regex_atoms ?rest)"
    using regex_atoms_plain[of ?rest "CHR ''^''"] by (simp add: plain_atom_def)
  ultimately show ?thesis
    by (simp add: regex_atoms_glob_source del: regex_atoms.simps)
qed

lemma atoms_match_glob:
  "atoms_match (map glob_atom p) key = glob_match_on (\<lambda>c. \<not> line_terminator c) p key"
  by (induction "\<lambda>c. \<not> line_terminator c" p key rule: glob_match_on.induct)
     (auto simp: glob_atom_def split: list.splits)

lemma regex_test_patternToRegex:
  "regex_test (patternToRegex p) key = Some (glob_match_on (\<lambda>c. \<not> line_terminator c) p key)"
  by (simp add: regex_test_def regex_atoms_patternToRegex atoms_match_glob)






subsection \<open>\<open>LayeredStrategy.set\<close> and \<open>mset\<close>\<close>

lemma call_each_errors:
  "fst (call_each f stores)
     = map (\<lambda>store. (st_name store, projl (fst (f store)))) (filter (rejected_by f) stores)"
  by (induction stores) (auto simp: rejected_by_def split: prod.splits sum.splits)

lemma call_each_stores:
  "snd (call_each f stores) = map (\<lambda>store. snd (f store)) stores"
  by (induction stores) (auto split: prod.splits)

lemma length_filter_full:
  "length (filter P xs) = length xs \<longleftrightarrow> (\<forall>x \<in> set xs. P x)"
proof -
  have "length (filter P xs) + length (filter (\<lambda>x. \<not> P x) xs) = length xs"
    by (rule sum_length_filter_compl)
  then have "length (filter P xs) = length xs \<longleftrightarrow> filter (\<lambda>x. \<not> P x) xs = []"
    by auto
  then show ?thesis by (simp add: filter_empty_conv)
qed

lemma call_each_all_failed:
  "length (fst (call_each f stores)) = length stores \<longleftrightarrow> (\<forall>store \<in> set stores. rejected_by f store)"
  by (simp add: call_each_errors length_filter_full)

lemma filter_all: "\<forall>x \<in> set xs. P x \<Longrightarrow> filter P xs = xs"
  by (induction xs) auto

text \<open>
  C4. \<open>set\<close> rejects if and only if every store rejected the write, and then its error is
  the message prefix followed by the messages of all the stores' errors, in store order,
  joined by a comma. If some store accepted the write, \<open>set\<close> resolves. In both cases the
  errors logged are exactly the errors of the stores that rejected, each under the name of
  its store. \<open>mset\<close> does the same with its own prefix.
\<close>

theorem layered_set_fails_iff_all_stores_fail:
  fixes now key v options kvs stores
  defines "setOn \<equiv> (\<lambda>store. st_set store now key v options)"
    and "msetOn \<equiv> (\<lambda>store. st_mset store now kvs options)"
  shows
  "(isl (fst (LayeredStrategy_set now key v options stores))
       \<longleftrightarrow> (\<forall>store \<in> set stores. rejected_by setOn store))
   \<and> ((\<forall>store \<in> set stores. rejected_by setOn store) \<longrightarrow>
        fst (LayeredStrategy_set now key v options stores)
          = Inl (PlainError (''Failed to set key '' @ key_text key @ '' in all stores: ''
               @ join '', '' (map (\<lambda>store. message (projl (fst (setOn store)))) stores))))
   \<and> ((\<exists>store \<in> set stores. \<not> rejected_by setOn store) \<longrightarrow>
        fst (LayeredStrategy_set now key v options stores) = Inr ())
   \<and> fst (snd (LayeredStrategy_set now key v options stores))
        = map (\<lambda>store. (st_name store, projl (fst (setOn store)))) (filter (rejected_by setOn) stores)
   \<and> (isl (fst (LayeredStrategy_mset now kvs options stores))
       \<longleftrightarrow> (\<forall>store \<in> set stores. rejected_by msetOn store))
   \<and> ((\<forall>store \<in> set stores. rejected_by msetOn store) \<longrightarrow>
        fst (LayeredStrategy_mset now kvs options stores)
          = Inl (PlainError (''Failed to execute mset in all stores: ''
               @ join '', '' (map (\<lambda>store. message (projl (fst (msetOn store)))) stores))))
   \<and> ((\<exists>store \<in> set stores. \<not> rejected_by msetOn store) \<longrightarrow>
        fst (LayeredStrategy_mset now kvs options stores) = Inr ())
   \<and> fst (snd (LayeredStrategy_mset now kvs options stores))
        = map (\<lambda>store. (st_name store, projl (fst (msetOn store)))) (filter (rejected_by msetOn) stores)"
proof -
  let ?es = "fst (call_each setOn stores)" and ?ms = "fst (call_each msetOn stores)"
  have set_eq: "LayeredStrategy_set now key v options stores =
      (if length ?es = length stores
       then Inl (PlainError (''Failed to set key '' @ key_text key @ '' in all stores: ''
               @ join '', '' (map (\<lambda>e. message (snd e)) ?es)))
       else Inr (),
       ?es, snd (call_each setOn stores))"
    by (simp add: LayeredStrategy_set_def setOn_def split: prod.splits)
  have mset_eq: "LayeredStrategy_mset now kvs options stores =
      (if length ?ms = length stores
       then Inl (PlainError (''Failed to execute mset in all stores: ''
               @ join '', '' (map (\<lambda>e. message (snd e)) ?ms)))
       else Inr (),
       ?ms, snd (call_each msetOn stores))"
    by (simp add: LayeredStrategy_mset_def msetOn_def split: prod.splits)
  have msgs: "\<And>f. (\<forall>store \<in> set stores. rejected_by f store) \<Longrightarrow>
      map (\<lambda>e. message (snd e)) (fst (call_each f stores))
        = map (\<lambda>store. message (projl (fst (f store)))) stores"
    by (simp add: call_each_errors filter_all comp_def)
  have s1: "isl (fst (LayeredStrategy_set now key v options stores))
       \<longleftrightarrow> (\<forall>store \<in> set stores. rejected_by setOn store)"
    unfolding set_eq using call_each_all_failed[of setOn stores] by simp
  have s2: "(\<forall>store \<in> set stores. rejected_by setOn store) \<longrightarrow>
        fst (LayeredStrategy_set now key v options stores)
          = Inl (PlainError (''Failed to set key '' @ key_text key @ '' in all stores: ''
               @ join '', '' (map (\<lambda>store. message (projl (fst (setOn store)))) stores)))"
    unfolding set_eq using call_each_all_failed[of setOn stores] msgs[of setOn] by simp
  have s3: "(\<exists>store \<in> set stores. \<not> rejected_by setOn store) \<longrightarrow>
        fst (LayeredStrategy_set now key v options stores) = Inr ()"
    unfolding set_eq using call_each_all_failed[of setOn stores] by auto
  have s4: "fst (snd (LayeredStrategy_set now key v options stores))
        = map (\<lambda>store. (st_name store, projl (fst (setOn store)))) (filter (rejected_by setOn) stores)"
    unfolding set_eq by (simp add: call_each_errors)
  have m1: "isl (fst (LayeredStrategy_mset now kvs options stores))
       \<longleftrightarrow> (\<forall>store \<in> set stores. rejected_by msetOn store)"
    unfolding mset_eq using call_each_all_failed[of msetOn stores] by simp
  have m2: "(\<forall>store \<in> set stores. rejected_by msetOn store) \<longrightarrow>
        fst (LayeredStrategy_mset now kvs options stores)
          = Inl (PlainError (''Failed to execute mset in all stores: ''
               @ join '', '' (map (\<lambda>store. message (projl (fst (msetOn store)))) stores)))"
    unfolding mset_eq using call_each_all_failed[of msetOn stores] msgs[of msetOn] by simp
  have m3: "(\<exists>store \<in> set stores. \<not> rejected_by msetOn store) \<longrightarrow>
        fst (LayeredStrategy_mset now kvs options stores) = Inr ()"
    unfolding mset_eq using call_each_all_failed[of msetOn stores] by auto
  have m4: "fst (snd (LayeredStrategy_mset now kvs options stores))
        = map (\<lambda>store. (st_name store, projl (fst (msetOn store)))) (filter (rejected_by msetOn) stores)"
    unfolding mset_eq by (simp add: call_each_errors)
  from s1 s2 s3 s4 m1 m2 m3 m4 show ?thesis by blast
qed

theorem layered_set_fails_iff_all_stores_fail_witness:
  "fst (LayeredStrategy_set 1000 (KeyString ''k'') (Primitive ''v'') None [redis_down, memcached_down])
     = Inl (PlainError ''Failed to set key k in all stores: redis down, memcached down'')
   \<and> fst (LayeredStrategy_set 1000 (KeyString ''k'') (Primitive ''v'') None
            [memoryStore (MemoryStore_new test_config), redis_down]) = Inr ()
   \<and> fst (snd (LayeredStrategy_set 1000 (KeyString ''k'') (Primitive ''v'') None
            [memoryStore (MemoryStore_new test_config), redis_down]))
       = [(''RedisStore'', StoreError ''redis down'')]"
proof -
  let ?f = "\<lambda>store. st_set store 1000 (KeyString ''k'') (Primitive ''v'') None"
  note inst = layered_set_fails_iff_all_stores_fail
    [where now = 1000 and key = "KeyString ''k''" and v = "Primitive ''v''" and options = None]
  have bad: "rejected_by ?f redis_down" "rejected_by ?f memcached_down"
    by (simp_all add: rejected_by_def redis_down_def memcached_down_def)
  have good: "\<not> rejected_by ?f (memoryStore (MemoryStore_new test_config))"
    by (simp add: rejected_by_def MemoryStore_set_def executeWithCircuitBreaker_def MemoryStore_new_def
          test_config_def base_store_init_def set_body_def validateKey_def validateValue_def Let_def
          split: prod.splits)
  have all: "\<forall>store \<in> set [redis_down, memcached_down]. rejected_by ?f store"
    using bad by simp
  have a: "fst (LayeredStrategy_set 1000 (KeyString ''k'') (Primitive ''v'') None [redis_down, memcached_down])
     = Inl (PlainError ''Failed to set key k in all stores: redis down, memcached down'')"
    using inst[where stores = "[redis_down, memcached_down]"] all
    by (simp add: redis_down_def memcached_down_def)
  have some: "\<exists>store \<in> set [memoryStore (MemoryStore_new test_config), redis_down]. \<not> rejected_by ?f store"
    using good by simp
  have b: "fst (LayeredStrategy_set 1000 (KeyString ''k'') (Primitive ''v'') None
            [memoryStore (MemoryStore_new test_config), redis_down]) = Inr ()"
    using inst[where stores = "[memoryStore (MemoryStore_new test_config), redis_down]"] some
    by blast
  have c: "fst (snd (LayeredStrategy_set 1000 (KeyString ''k'') (Primitive ''v'') None
            [memoryStore (MemoryStore_new test_config), redis_down]))
       = [(''RedisStore'', StoreError ''redis down'')]"
    using inst[where stores = "[memoryStore (MemoryStore_new test_config), redis_down]"] good bad
    by (simp add: redis_down_def)
  from a b c show ?thesis by blast
qed


subsection \<open>\<open>CacheManager.exists\<close>\<close>

lemma exists_in_found:
  "fst (exists_in now key stores)
     \<longleftrightarrow> (\<exists>store \<in> set stores. fst (st_exists store now key) = Inr True)"
  by (induction stores) (auto split: prod.splits sum.splits bool.splits)

lemma exists_in_short_circuit:
  "\<forall>store \<in> set before. fst (st_exists store now key) \<noteq> Inr True \<Longrightarrow>
   fst (st_exists hit now key) = Inr True \<Longrightarrow>
   exists_in now key (before @ hit # rest)
     = (True, map (\<lambda>store. snd (st_exists store now key)) before
              @ snd (st_exists hit now key) # rest)"
  by (induction before) (auto split: prod.splits sum.splits bool.splits)

lemma exists_in_all_asked:
  "\<forall>store \<in> set stores. fst (st_exists store now key) \<noteq> Inr True \<Longrightarrow>
   exists_in now key stores = (False, map (\<lambda>store. snd (st_exists store now key)) stores)"
  by (induction stores) (auto split: prod.splits sum.splits bool.splits)

text \<open>
  C10. The manager's stores are the configured ones in priority order. \<open>exists\<close> always
  resolves; its answer is true if and only if some store answers true to \<open>exists(key)\<close>, a
  store that rejects counting as one that answers false. When \<open>hit\<close> is the first store to
  answer true, the stores before it have been asked, \<open>hit\<close> has been asked, and the stores
  after it are as they were: they have not been asked.
\<close>

theorem cache_manager_exists:
  fixes configured :: "istore list"
  defines "stores \<equiv> CacheManager_stores configured"
  shows
  "sorted (map getStorePriority stores) \<and> set stores = set configured
   \<and> (\<exists>found. fst (CacheManager_exists now duration key (stores, m)) = Inr found
        \<and> (found \<longleftrightarrow> (\<exists>store \<in> set stores. fst (st_exists store now key) = Inr True)))
   \<and> (\<forall>before hit rest.
         stores = before @ hit # rest
         \<and> (\<forall>store \<in> set before. fst (st_exists store now key) \<noteq> Inr True)
         \<and> fst (st_exists hit now key) = Inr True \<longrightarrow>
         fst (snd (CacheManager_exists now duration key (stores, m)))
           = map (\<lambda>store. snd (st_exists store now key)) before
             @ snd (st_exists hit now key) # rest)"
proof -
  have a: "sorted (map getStorePriority stores)" "set stores = set configured"
    by (simp_all add: stores_def CacheManager_stores_def LayeredStrategy_new_def)
  have eq: "CacheManager_exists now duration key (stores, m)
      = (Inr (fst (exists_in now key stores)), snd (exists_in now key stores),
         m\<lparr>m_operations := m_operations m + 1,
           m_totalResponseTime := m_totalResponseTime m + duration\<rparr>)"
    by (simp add: CacheManager_exists_def withMetrics_def split: prod.splits)
  have b: "\<exists>found. fst (CacheManager_exists now duration key (stores, m)) = Inr found
        \<and> (found \<longleftrightarrow> (\<exists>store \<in> set stores. fst (st_exists store now key) = Inr True))"
    unfolding eq by (simp add: exists_in_found)
  have c: "\<forall>before hit rest.
         stores = before @ hit # rest
         \<and> (\<forall>store \<in> set before. fst (st_exists store now key) \<noteq> Inr True)
         \<and> fst (st_exists hit now key) = Inr True \<longrightarrow>
         fst (snd (CacheManager_exists now duration key (stores, m)))
           = map (\<lambda>store. snd (st_exists store now key)) before
             @ snd (st_exists hit now key) # rest"
    unfolding eq by (auto simp: exists_in_short_circuit)
  from a b c show ?thesis by blast
qed

theorem cache_manager_exists_witness:
  "CacheManager_stores [redis_down, memoryStore three_keys_store]
     = [memoryStore three_keys_store, redis_down]
   \<and> fst (CacheManager_exists 2000 3 (KeyString ''user:1'')
          (CacheManager_stores [redis_down, memoryStore three_keys_store],
           \<lparr>m_operations = 0, m_errors = 0, m_totalResponseTime = 0\<rparr>)) = Inr True
   \<and> fst (CacheManager_exists 2000 3 (KeyString ''user:9'')
          (CacheManager_stores [redis_down, memoryStore three_keys_store],
           \<lparr>m_operations = 0, m_errors = 0, m_totalResponseTime = 0\<rparr>)) = Inr False"
proof -
  let ?stores = "CacheManager_stores [redis_down, memoryStore three_keys_store]"
  let ?m = "\<lparr>m_operations = 0, m_errors = 0, m_totalResponseTime = 0\<rparr>"
  have order: "?stores = [memoryStore three_keys_store, redis_down]"
    by (simp add: CacheManager_stores_def LayeredStrategy_new_def getStorePriority_def redis_down_def)
  have hit: "fst (MemoryStore_exists 2000 (KeyString ''user:1'') three_keys_store) = Inr True"
    by code_simp
  have miss: "fst (MemoryStore_exists 2000 (KeyString ''user:9'') three_keys_store) = Inr False"
    by code_simp
  have yes: "\<exists>store \<in> set ?stores. fst (st_exists store 2000 (KeyString ''user:1'')) = Inr True"
    unfolding order using hit by simp
  have no: "\<not> (\<exists>store \<in> set ?stores. fst (st_exists store 2000 (KeyString ''user:9'')) = Inr True)"
    unfolding order using miss by (simp add: redis_down_def)
  from yes have a: "fst (CacheManager_exists 2000 3 (KeyString ''user:1'') (?stores, ?m)) = Inr True"
    using cache_manager_exists[of "[redis_down, memoryStore three_keys_store]" 2000 3 "KeyString ''user:1''" ?m]
    by auto
  from no have b: "fst (CacheManager_exists 2000 3 (KeyString ''user:9'') (?stores, ?m)) = Inr False"
    using cache_manager_exists[of "[redis_down, memoryStore three_keys_store]" 2000 3 "KeyString ''user:9''" ?m]
    by auto
  from order a b show ?thesis by blast
qed

subsection \<open>What the breaker does to a store\<close>

text \<open>
  A wrapped call either fails fast and leaves the store as it is, or runs the body on the
  store with at most the breaker field changed and afterwards changes at most that field.
\<close>

lemma executeWithCircuitBreaker_cases:
  fixes s :: "'z base_store_scheme"
  obtains (fast) "executeWithCircuitBreaker tc tf to body s
                    = (Inl (CircuitBreakerError ''Circuit breaker is open''), s)"
  | (ran) x y where "executeWithCircuitBreaker tc tf to body s
                    = (fst (body (s\<lparr>circuitBreaker := x\<rparr>)),
                       (snd (body (s\<lparr>circuitBreaker := x\<rparr>)))\<lparr>circuitBreaker := y\<rparr>)"
proof (cases "\<exists>cb cfg. circuitBreaker s = Some cb \<and> circuitBreakerConfig s = Some cfg")
  case False
  then have "executeWithCircuitBreaker tc tf to body s = body s"
    by (auto simp: executeWithCircuitBreaker_def split: option.splits)
  then have "executeWithCircuitBreaker tc tf to body s
      = (fst (body (s\<lparr>circuitBreaker := circuitBreaker s\<rparr>)),
         (snd (body (s\<lparr>circuitBreaker := circuitBreaker s\<rparr>)))
           \<lparr>circuitBreaker := circuitBreaker (snd (body s))\<rparr>)"
    by simp
  then show ?thesis by (rule ran)
next
  case True
  then obtain cb cfg where cb: "circuitBreaker s = Some cb" "circuitBreakerConfig s = Some cfg"
    by blast
  show ?thesis
  proof (cases "isOpen cb \<and> attempt_blocked cb tc")
    case True
    with cb have "executeWithCircuitBreaker tc tf to body s
                    = (Inl (CircuitBreakerError ''Circuit breaker is open''), s)"
      by (simp add: executeWithCircuitBreaker_def)
    then show ?thesis by (rule fast)
  next
    case False
    let ?x = "if isOpen cb then Some (cb\<lparr>isOpen := False, failures := 0\<rparr>) else Some cb"
    have "s\<lparr>circuitBreaker := circuitBreaker s\<rparr> = s" by simp
    then have idem: "s\<lparr>circuitBreaker := Some cb\<rparr> = s" using cb by simp
    have s1: "(if isOpen cb then s\<lparr>circuitBreaker := Some (cb\<lparr>isOpen := False, failures := 0\<rparr>)\<rparr> else s)
                = s\<lparr>circuitBreaker := ?x\<rparr>"
      using idem by simp
    obtain r s2 where b: "body (s\<lparr>circuitBreaker := ?x\<rparr>) = (r, s2)"
      by (cases "body (s\<lparr>circuitBreaker := ?x\<rparr>)")
    have "\<exists>y. executeWithCircuitBreaker tc tf to body s = (r, s2\<lparr>circuitBreaker := y\<rparr>)"
      using cb False b unfolding executeWithCircuitBreaker_def Let_def
      by (cases r) (auto simp: idem)
    then obtain y where "executeWithCircuitBreaker tc tf to body s = (r, s2\<lparr>circuitBreaker := y\<rparr>)"
      by blast
    with b have "executeWithCircuitBreaker tc tf to body s
       = (fst (body (s\<lparr>circuitBreaker := ?x\<rparr>)),
          (snd (body (s\<lparr>circuitBreaker := ?x\<rparr>)))\<lparr>circuitBreaker := y\<rparr>)"
      by simp
    then show ?thesis by (rule ran)
  qed
qed

lemma closed_breaker_runs:
  fixes s :: "'z base_store_scheme"
  assumes "breaker_closed s"
  shows "\<exists>y. executeWithCircuitBreaker tc tf to body s
               = (fst (body s), (snd (body s))\<lparr>circuitBreaker := y\<rparr>)"
proof (cases "\<exists>cb cfg. circuitBreaker s = Some cb \<and> circuitBreakerConfig s = Some cfg")
  case False
  then have "executeWithCircuitBreaker tc tf to body s = body s"
    by (auto simp: executeWithCircuitBreaker_def split: option.splits)
  then have "executeWithCircuitBreaker tc tf to body s
      = (fst (body s), (snd (body s))\<lparr>circuitBreaker := circuitBreaker (snd (body s))\<rparr>)"
    by simp
  then show ?thesis by blast
next
  case True
  then obtain cb cfg where cb: "circuitBreaker s = Some cb" "circuitBreakerConfig s = Some cfg"
    by blast
  with assms have "\<not> isOpen cb" by (simp add: breaker_closed_def)
  with cb show ?thesis
    unfolding executeWithCircuitBreaker_def
    by (cases "body s"; cases "fst (body s)") auto
qed

lemma resolved_leaves_breaker_closed:
  fixes s :: "'z base_store_scheme"
  assumes "keeps_breaker body"
    and "executeWithCircuitBreaker tc tf to body s = (Inr r, s')"
  shows "breaker_closed s'"
proof (cases "\<exists>cb cfg. circuitBreaker s = Some cb \<and> circuitBreakerConfig s = Some cfg")
  case False
  then have "s' = snd (body s)"
    using assms(2) by (auto simp: executeWithCircuitBreaker_def split: option.splits)
  with False assms(1) show ?thesis
    by (auto simp: breaker_closed_def keeps_breaker_def split: option.splits)
next
  case True
  then obtain cb cfg where cb: "circuitBreaker s = Some cb" "circuitBreakerConfig s = Some cfg"
    by blast
  let ?s1 = "if isOpen cb then s\<lparr>circuitBreaker := Some (cb\<lparr>isOpen := False, failures := 0\<rparr>)\<rparr> else s"
  have closed1: "\<exists>c. circuitBreaker ?s1 = Some c \<and> \<not> isOpen c"
    using cb by simp
  have run: "\<not> (isOpen cb \<and> attempt_blocked cb tc)"
    using assms(2) cb by (auto simp: executeWithCircuitBreaker_def)
  obtain r2 s2 where b: "body ?s1 = (r2, s2)" by (cases "body ?s1")
  have keep: "circuitBreaker s2 = circuitBreaker ?s1"
    using assms(1) b unfolding keeps_breaker_def by (metis snd_conv)
  from assms(2) cb run b have "r2 = Inr r"
    and s': "s' = s2\<lparr>circuitBreaker := map_option (\<lambda>c. c\<lparr>failures := 0\<rparr>) (circuitBreaker s2)\<rparr>"
    unfolding executeWithCircuitBreaker_def Let_def by (cases r2; simp)+
  from closed1 keep obtain c where "circuitBreaker s2 = Some c" "\<not> isOpen c" by auto
  with s' show ?thesis
    by (simp add: breaker_closed_def split: option.splits)
qed

subsection \<open>The index invariant of \<open>MemoryStore\<close>\<close>




lemma bucket_ok_absent:
  "bucket_ok names idx \<Longrightarrow> names k = None \<Longrightarrow> idx name = Some ks \<Longrightarrow> k \<notin> set ks"
  unfolding bucket_ok_def by fastforce





lemma map_of_lru_remove: "map_of (lru_remove k xs) = (map_of xs)(k := None)"
  by (induction xs) (auto simp: lru_remove_def)



lemma cleanupIndexes_eq:
  "cleanupIndexes k e s =
     s\<lparr>tagIndex := remove_names k (tags e) (tagIndex s),
       dependencyIndex := remove_names k (dependencies e) (dependencyIndex s)\<rparr>"
  by (simp add: cleanupIndexes_def remove_names_def)

lemma updateIndexes_eq:
  "updateIndexes k e s =
     s\<lparr>tagIndex := add_names k (tags e) (tagIndex s),
       dependencyIndex := add_names k (dependencies e) (dependencyIndex s)\<rparr>"
  by (simp add: updateIndexes_def add_names_def)












lemma index_invariant_breaker [simp]:
  "index_invariant (s\<lparr>circuitBreaker := x\<rparr>) = index_invariant s"
  by (simp add: index_invariant_def)








lemma cache_dispose_all: "cache (dispose_all ds s) = cache s"
  unfolding dispose_all_def by (induction ds arbitrary: s) (simp_all add: cleanupIndexes_eq)


















lemma run_calls_snoc: "run_calls (calls @ [c]) s = perform (fst c) (snd c) (run_calls calls s)"
  by (induction calls arbitrary: s) simp_all



subsection \<open>Reads and lifetimes\<close>

lemma same_entries_refl: "same_entries c c"
  by (simp add: same_entries_def)

lemma same_entries_trans: "same_entries a b \<Longrightarrow> same_entries b c \<Longrightarrow> same_entries a c"
  unfolding same_entries_def by (metis (no_types, lifting))

lemma same_entries_removed:
  "same_entries c (c\<lparr>lru_items := lru_remove k (lru_items c)\<rparr>)"
  by (simp add: same_entries_def map_of_lru_remove)

lemma same_entries_reranked:
  "map_of (lru_items c) k = Some it \<Longrightarrow>
     same_entries c (c\<lparr>lru_items := (k, lru_restart now it) # lru_remove k (lru_items c)\<rparr>)"
  by (simp add: same_entries_def map_of_lru_remove lru_restart_def)

lemma map_of_map_keep:
  "(\<And>p. fst (g p) = fst p) \<Longrightarrow> map_of (map g xs) k = Some y \<Longrightarrow>
     \<exists>x. map_of xs k = Some x \<and> y = snd (g (k, x))"
proof (induction xs)
  case Nil
  then show ?case by simp
next
  case (Cons p xs)
  have g: "fst (g p) = fst p" by (rule Cons.prems(1))
  show ?case
  proof (cases "fst p = k")
    case True
    with g Cons.prems(2) show ?thesis by (cases p; cases "g p") auto
  next
    case False
    with g Cons.prems(2) have "map_of (map g xs) k = Some y" by (cases p; cases "g p") auto
    with Cons.IH Cons.prems(1) have "\<exists>x. map_of xs k = Some x \<and> y = snd (g (k, x))" by blast
    with False show ?thesis by (cases p) auto
  qed
qed

lemma same_entries_touched: "same_entries c (touch_entry now k c)"
  unfolding same_entries_def touch_entry_def
proof (intro allI impI)
  fix k' it'
  let ?g = "\<lambda>p. if fst p = k
                  then (fst p, (snd p)\<lparr>item_value := (item_value (snd p))\<lparr>lastAccessed := now\<rparr>\<rparr>)
                  else p"
  assume "map_of (lru_items (c\<lparr>lru_items := map ?g (lru_items c)\<rparr>)) k' = Some it'"
  then have "map_of (map ?g (lru_items c)) k' = Some it'" by simp
  then have "\<exists>x. map_of (lru_items c) k' = Some x \<and> it' = snd (?g (k', x))"
    by (rule map_of_map_keep[rotated]) simp
  then obtain it where "map_of (lru_items c) k' = Some it" and "it' = snd (?g (k', it))"
    by blast
  then show "\<exists>it. map_of (lru_items c) k' = Some it
           \<and> entry_value (item_value it') = entry_value (item_value it)
           \<and> ttl (item_value it') = ttl (item_value it)
           \<and> createdAt (item_value it') = createdAt (item_value it)
           \<and> item_ttl it' = item_ttl it"
    by auto
qed

lemma cache_cleanupIndexes: "cache (cleanupIndexes k e s) = cache s"
  by (simp add: cleanupIndexes_eq)

lemma cache_cache_delete:
  "cache (snd (cache_delete k s)) = snd (snd (lru_delete k (cache s)))"
  by (simp add: cache_delete_def case_prod_unfold cache_dispose_all)

lemma same_entries_deleted: "same_entries c (snd (snd (lru_delete k c)))"
  by (cases "map_of (lru_items c) k")
     (simp_all add: lru_delete_def same_entries_refl same_entries_removed)

lemma get_body_same_entries: "same_entries (cache s) (cache (snd (get_body now key s)))"
proof (cases "validateKey key")
  case (Inl e)
  then show ?thesis by (simp add: get_body_def same_entries_refl)
next
  case (Inr k)
  show ?thesis
  proof (cases "map_of (lru_items (cache s)) k")
    case None
    with Inr show ?thesis
      by (simp add: get_body_def lru_get_def dispose_all_def same_entries_refl)
  next
    case (Some it)
    show ?thesis
    proof (cases "lru_stale now it")
      case True
      with Inr Some show ?thesis
        by (simp add: get_body_def lru_get_def cache_dispose_all same_entries_removed)
    next
      case False
      let ?c1 = "(cache s)\<lparr>lru_items := (k, lru_restart now it) # lru_remove k (lru_items (cache s))\<rparr>"
      have 1: "same_entries (cache s) ?c1" by (rule same_entries_reranked[OF Some])
      have "same_entries (cache s) (snd (snd (lru_delete k ?c1)))"
        by (rule same_entries_trans[OF 1 same_entries_deleted])
      moreover have "same_entries (cache s) (touch_entry now k ?c1)"
        by (rule same_entries_trans[OF 1 same_entries_touched])
      ultimately show ?thesis
        using Inr Some False
        by (simp add: get_body_def lru_get_def dispose_all_def Let_def cache_cache_delete)
    qed
  qed
qed

lemma get_same_entries: "same_entries (cache s) (cache (snd (MemoryStore_get now key s)))"
proof (cases rule: executeWithCircuitBreaker_cases[of now now now "get_body now key" s])
  case fast
  then show ?thesis by (simp add: MemoryStore_get_def same_entries_refl)
next
  case (ran x y)
  have "same_entries (cache (s\<lparr>circuitBreaker := x\<rparr>))
          (cache (snd (get_body now key (s\<lparr>circuitBreaker := x\<rparr>))))"
    by (rule get_body_same_entries)
  with ran show ?thesis by (simp add: MemoryStore_get_def)
qed

lemma reads_same_entries: "same_entries (cache s) (cache (run_calls (reads rs) s))"
proof (induction rs arbitrary: s)
  case Nil
  show ?case by (simp add: reads_def same_entries_refl)
next
  case (Cons r rs)
  have "same_entries (cache s) (cache (snd (MemoryStore_get (fst r) (snd r) s)))"
    by (rule get_same_entries)
  moreover have "same_entries (cache (snd (MemoryStore_get (fst r) (snd r) s)))
      (cache (run_calls (reads rs) (snd (MemoryStore_get (fst r) (snd r) s))))"
    by (rule Cons.IH)
  ultimately have "same_entries (cache s)
      (cache (run_calls (reads rs) (snd (MemoryStore_get (fst r) (snd r) s))))"
    by (rule same_entries_trans)
  then show ?case by (simp add: reads_def)
qed

text \<open>A read of an entry that is past its own lifetime does not answer the value.\<close>

lemma get_body_expired:
  assumes "map_of (lru_items (cache s)) k = Some it"
    and "ttl (item_value it) = Some n" and "n \<noteq> 0"
    and "now - createdAt (item_value it) > n * 1000"
  shows "fst (get_body now (KeyString k) s) = Inr Null \<or> isl (fst (get_body now (KeyString k) s))"
proof (cases "validateKey (KeyString k)")
  case (Inl e)
  then show ?thesis by (simp add: get_body_def)
next
  case (Inr k')
  then have k': "k' = k" by (simp add: validateKey_def split: if_splits)
  from assms have "isExpired now (createdAt (item_value it)) (ttl (item_value it))"
    by (simp add: isExpired_def)
  with Inr k' assms(1) show ?thesis
    by (simp add: get_body_def lru_get_def Let_def)
qed

lemma get_body_absent:
  "map_of (lru_items (cache s)) k = None \<Longrightarrow>
     fst (get_body now (KeyString k) s) = Inr Null \<or> isl (fst (get_body now (KeyString k) s))"
  by (cases "validateKey (KeyString k)")
     (auto simp: get_body_def lru_get_def validateKey_def split: if_splits)

lemma get_no_value:
  assumes "\<And>s0. cache s0 = cache s \<Longrightarrow>
      fst (get_body now key s0) = Inr Null \<or> isl (fst (get_body now key s0))"
  shows "fst (MemoryStore_get now key s) = Inr Null \<or> isl (fst (MemoryStore_get now key s))"
proof (cases rule: executeWithCircuitBreaker_cases[of now now now "get_body now key" s])
  case fast
  then show ?thesis by (simp add: MemoryStore_get_def)
next
  case (ran x y)
  have "fst (get_body now key (s\<lparr>circuitBreaker := x\<rparr>)) = Inr Null
        \<or> isl (fst (get_body now key (s\<lparr>circuitBreaker := x\<rparr>)))"
    by (rule assms) simp
  with ran show ?thesis by (simp add: MemoryStore_get_def)
qed

text \<open>A read that finds a live entry answers its value and restarts the age of its item.\<close>

lemma get_live:
  assumes held: "map_of (lru_items (cache s)) k = Some it" and k: "k \<noteq> []"
    and closed: "breaker_closed s"
    and live: "\<not> lru_stale now it"
      "\<not> isExpired now (createdAt (item_value it)) (ttl (item_value it))"
  shows "fst (MemoryStore_get now (KeyString k) s) = Inr (entry_value (item_value it))
     \<and> (\<exists>it'. map_of (lru_items (cache (snd (MemoryStore_get now (KeyString k) s)))) k = Some it'
               \<and> item_start it' = (if item_ttl it \<noteq> 0 then now else 0)
               \<and> item_ttl it' = item_ttl it)"
proof -
  obtain y where run: "MemoryStore_get now (KeyString k) s
      = (fst (get_body now (KeyString k) s), (snd (get_body now (KeyString k) s))\<lparr>circuitBreaker := y\<rparr>)"
    using closed_breaker_runs[OF closed, of now now now "get_body now (KeyString k)"]
    by (auto simp: MemoryStore_get_def)
  have body: "get_body now (KeyString k) s
      = (Inr (entry_value (item_value it)),
         s\<lparr>cache := touch_entry now k
              ((cache s)\<lparr>lru_items := (k, lru_restart now it) # lru_remove k (lru_items (cache s))\<rparr>)\<rparr>)"
    using held k live
    by (simp add: get_body_def validateKey_def lru_get_def dispose_all_def Let_def)
  show ?thesis
    unfolding run body
    by (simp add: touch_entry_def lru_restart_def)
qed

text \<open>
  C7, as the code has it. A read never changes an entry's value, its own lifetime, its
  creation time or the lifetime of its cache item; this holds over any number of reads. So
  an entry written with a lifetime of its own expires relative to its creation: once the
  clock is past creation plus lifetime, \<open>get\<close> does not answer the value, whatever reads
  came before. But a read that finds a live entry restarts the age of its cache item
  (\<open>updateAgeOnGet\<close>): an entry that has only the store's default lifetime expires relative
  to its last read.
\<close>

theorem get_keeps_lifetimes_and_restarts_item_age:
  "same_entries (cache s) (cache (run_calls (reads rs) s))
   \<and> (map_of (lru_items (cache s)) k = Some it \<and> ttl (item_value it) = Some n \<and> n \<noteq> 0
        \<and> now - createdAt (item_value it) > n * 1000 \<longrightarrow>
        fst (MemoryStore_get now (KeyString k) (run_calls (reads rs) s)) = Inr Null
        \<or> isl (fst (MemoryStore_get now (KeyString k) (run_calls (reads rs) s))))
   \<and> (map_of (lru_items (cache s)) k = Some it \<and> k \<noteq> [] \<and> breaker_closed s
        \<and> \<not> lru_stale now it
        \<and> \<not> isExpired now (createdAt (item_value it)) (ttl (item_value it)) \<longrightarrow>
        fst (MemoryStore_get now (KeyString k) s) = Inr (entry_value (item_value it))
        \<and> (\<exists>it'. map_of (lru_items (cache (snd (MemoryStore_get now (KeyString k) s)))) k = Some it'
               \<and> item_start it' = (if item_ttl it \<noteq> 0 then now else 0)
               \<and> item_ttl it' = item_ttl it))"
proof -
  let ?s' = "run_calls (reads rs) s"
  have a: "same_entries (cache s) (cache ?s')" by (rule reads_same_entries)
  have b: "fst (MemoryStore_get now (KeyString k) ?s') = Inr Null
        \<or> isl (fst (MemoryStore_get now (KeyString k) ?s'))"
    if held: "map_of (lru_items (cache s)) k = Some it" and n: "ttl (item_value it) = Some n" "n \<noteq> 0"
      and late: "now - createdAt (item_value it) > n * 1000"
  proof (rule get_no_value)
    fix s0 :: memory_store
    assume c: "cache s0 = cache ?s'"
    show "fst (get_body now (KeyString k) s0) = Inr Null \<or> isl (fst (get_body now (KeyString k) s0))"
    proof (cases "map_of (lru_items (cache s0)) k")
      case None
      then show ?thesis by (rule get_body_absent)
    next
      case (Some it')
      with a c held obtain "ttl (item_value it') = ttl (item_value it)"
        and "createdAt (item_value it') = createdAt (item_value it)"
        unfolding same_entries_def by fastforce
      with n late have t: "ttl (item_value it') = Some n"
        and l: "now - createdAt (item_value it') > n * 1000"
        by simp_all
      show ?thesis by (rule get_body_expired[OF Some t n(2) l])
    qed
  qed
  have c: "fst (MemoryStore_get now (KeyString k) s) = Inr (entry_value (item_value it))
        \<and> (\<exists>it'. map_of (lru_items (cache (snd (MemoryStore_get now (KeyString k) s)))) k = Some it'
               \<and> item_start it' = (if item_ttl it \<noteq> 0 then now else 0)
               \<and> item_ttl it' = item_ttl it)"
    if "map_of (lru_items (cache s)) k = Some it" "k \<noteq> []" "breaker_closed s"
      "\<not> lru_stale now it" "\<not> isExpired now (createdAt (item_value it)) (ttl (item_value it))"
    using that by (rule get_live)
  from a b c show ?thesis by blast
qed

theorem get_keeps_lifetimes_and_restarts_item_age_witness:
  "(fst (MemoryStore_get 12000 (KeyString ''k'')
          (run_calls (reads [(5000, KeyString ''k''), (9000, KeyString ''k'')]) own_ttl_store))
      = Inr Null
    \<or> isl (fst (MemoryStore_get 12000 (KeyString ''k'')
          (run_calls (reads [(5000, KeyString ''k''), (9000, KeyString ''k'')]) own_ttl_store))))
   \<and> fst (MemoryStore_get 200000 (KeyString ''k'') default_ttl_store) = Inr (Primitive ''v'')
   \<and> (\<exists>it'. map_of (lru_items (cache (snd (MemoryStore_get 200000 (KeyString ''k'')
                  default_ttl_store)))) ''k'' = Some it'
          \<and> item_start it' = 200000 \<and> item_ttl it' = 300000)"
proof -
  let ?e = "\<lambda>t. \<lparr>entry_value = Primitive ''v'', ttl = t, createdAt = 1000, lastAccessed = 1000,
                  tags = None, dependencies = None, compressed = None, serialized = None\<rparr>"
  let ?own = "\<lparr>item_value = ?e (Some 10), item_start = 1000, item_ttl = 10000\<rparr>"
  let ?dflt = "\<lparr>item_value = ?e None, item_start = 1000, item_ttl = 300000\<rparr>"
  have own: "map_of (lru_items (cache own_ttl_store)) ''k'' = Some ?own" by code_simp
  have dflt: "map_of (lru_items (cache default_ttl_store)) ''k'' = Some ?dflt" by code_simp
  have closed: "breaker_closed default_ttl_store" by code_simp
  have live: "\<not> lru_stale 200000 ?dflt"
    "\<not> isExpired 200000 (createdAt (item_value ?dflt)) (ttl (item_value ?dflt))"
    by (simp_all add: lru_stale_def isExpired_def)
  note r1 = get_keeps_lifetimes_and_restarts_item_age
    [where s = own_ttl_store and k = "''k''" and it = ?own and n = 10 and now = 12000
       and rs = "[(5000, KeyString ''k''), (9000, KeyString ''k'')]"]
  note r2 = get_keeps_lifetimes_and_restarts_item_age
    [where s = default_ttl_store and k = "''k''" and it = ?dflt and now = 200000]
  from r1 own have a: "fst (MemoryStore_get 12000 (KeyString ''k'')
          (run_calls (reads [(5000, KeyString ''k''), (9000, KeyString ''k'')]) own_ttl_store))
      = Inr Null
    \<or> isl (fst (MemoryStore_get 12000 (KeyString ''k'')
          (run_calls (reads [(5000, KeyString ''k''), (9000, KeyString ''k'')]) own_ttl_store)))"
    by simp
  from r2 dflt closed live have b: "fst (MemoryStore_get 200000 (KeyString ''k'') default_ttl_store) = Inr (Primitive ''v'')
   \<and> (\<exists>it'. map_of (lru_items (cache (snd (MemoryStore_get 200000 (KeyString ''k'')
                  default_ttl_store)))) ''k'' = Some it'
          \<and> item_start it' = 200000 \<and> item_ttl it' = 300000)"
    by simp
  from a b show ?thesis by blast
qed

text \<open>
  C7 as the specification states it does not hold. The entry was written at time 1000 with
  the default lifetime of 300 s only. Read at 400000 it has expired; read at 200000 and then
  at 400000 it is still there: the first read has moved the time at which it expires.
\<close>

theorem read_extends_default_lifetime_counterexample:
  "fst (MemoryStore_get 400000 (KeyString ''k'') default_ttl_store) = Inr Null
   \<and> fst (MemoryStore_get 400000 (KeyString ''k'')
            (snd (MemoryStore_get 200000 (KeyString ''k'') default_ttl_store)))
       = Inr (Primitive ''v'')"
  by code_simp

subsection \<open>Promotion in \<open>LayeredStrategy.get\<close>\<close>

lemma breaker_dispose_all:
  "circuitBreaker (dispose_all ds s) = circuitBreaker s"
  "circuitBreakerConfig (dispose_all ds s) = circuitBreakerConfig s"
  unfolding dispose_all_def by (induction ds arbitrary: s) (simp_all add: cleanupIndexes_eq)

lemma breaker_cache_delete:
  "circuitBreaker (snd (cache_delete k s)) = circuitBreaker s"
  "circuitBreakerConfig (snd (cache_delete k s)) = circuitBreakerConfig s"
  by (simp_all add: cache_delete_def case_prod_unfold breaker_dispose_all)

lemma keeps_breaker_get_body: "keeps_breaker (get_body now key)"
  unfolding keeps_breaker_def
  by (auto simp: get_body_def Let_def case_prod_unfold breaker_dispose_all breaker_cache_delete
           split: sum.splits option.splits)

lemma keeps_breaker_set_body: "keeps_breaker (set_body now key v options)"
  unfolding keeps_breaker_def
  by (auto simp: set_body_def Let_def case_prod_unfold breaker_dispose_all updateIndexes_eq
           split: sum.splits)

lemma lru_ttl_get_body: "lru_ttl (cache (snd (get_body now key s))) = lru_ttl (cache s)"
  by (auto simp: get_body_def Let_def case_prod_unfold cache_dispose_all cache_cache_delete
        lru_get_def lru_delete_def touch_entry_def split: sum.splits option.splits)

lemma get_resolved:
  assumes "MemoryStore_get now key s = (Inr v, s')"
  shows "breaker_closed s'" and "\<exists>k. validateKey key = Inr k" and "lru_ttl (cache s') = lru_ttl (cache s)"
proof -
  from assms show "breaker_closed s'"
    unfolding MemoryStore_get_def
    by (rule resolved_leaves_breaker_closed[OF keeps_breaker_get_body])
  show "\<exists>k. validateKey key = Inr k" "lru_ttl (cache s') = lru_ttl (cache s)"
  proof (atomize (full), cases rule: executeWithCircuitBreaker_cases[of now now now "get_body now key" s])
    case fast
    with assms show "(\<exists>k. validateKey key = Inr k) \<and> lru_ttl (cache s') = lru_ttl (cache s)"
      by (simp add: MemoryStore_get_def)
  next
    case (ran x y)
    with assms have r: "fst (get_body now key (s\<lparr>circuitBreaker := x\<rparr>)) = Inr v"
      and s': "s' = (snd (get_body now key (s\<lparr>circuitBreaker := x\<rparr>)))\<lparr>circuitBreaker := y\<rparr>"
      by (simp_all add: MemoryStore_get_def)
    from r have "\<exists>k. validateKey key = Inr k"
      by (cases "validateKey key") (simp_all add: get_body_def)
    moreover from s' have "lru_ttl (cache s') = lru_ttl (cache s)"
      using lru_ttl_get_body[of now key "s\<lparr>circuitBreaker := x\<rparr>"] by simp
    ultimately show "(\<exists>k. validateKey key = Inr k) \<and> lru_ttl (cache s') = lru_ttl (cache s)"
      by blast
  qed
qed

text \<open>A write without options into a store that lets it through.\<close>

lemma set_closed:
  assumes closed: "breaker_closed s" and key: "validateKey key = Inr k" and v: "v \<noteq> Undefined"
  shows "\<exists>s' it. MemoryStore_set now key v None s = (Inr (), s') \<and> breaker_closed s'
           \<and> map_of (lru_items (cache s')) k = Some it
           \<and> entry_value (item_value it) = v \<and> ttl (item_value it) = None
           \<and> item_ttl it = lru_ttl (cache s)
           \<and> item_start it = (if lru_ttl (cache s) \<noteq> 0 then now else 0)"
proof -
  obtain y where run: "MemoryStore_set now key v None s
      = (fst (set_body now key v None s), (snd (set_body now key v None s))\<lparr>circuitBreaker := y\<rparr>)"
    using closed_breaker_runs[OF closed, of now now now "set_body now key v None"]
    by (auto simp: MemoryStore_set_def)
  have r: "fst (set_body now key v None s) = Inr ()"
    using key v by (simp add: set_body_def validateValue_def Let_def case_prod_unfold)
  with run have eq: "MemoryStore_set now key v None s
      = (Inr (), (snd (set_body now key v None s))\<lparr>circuitBreaker := y\<rparr>)"
    by simp
  then have c: "breaker_closed ((snd (set_body now key v None s))\<lparr>circuitBreaker := y\<rparr>)"
    unfolding MemoryStore_set_def
    by (rule resolved_leaves_breaker_closed[OF keeps_breaker_set_body])
  have "\<exists>it. map_of (lru_items (cache (snd (set_body now key v None s)))) k = Some it
           \<and> entry_value (item_value it) = v \<and> ttl (item_value it) = None
           \<and> item_ttl it = lru_ttl (cache s)
           \<and> item_start it = (if lru_ttl (cache s) \<noteq> 0 then now else 0)"
    using key v
    by (auto simp: set_body_def validateValue_def Let_def case_prod_unfold updateIndexes_eq
          cache_dispose_all lru_set_def split: option.splits)
  with eq c show ?thesis by auto
qed

lemma isExpired_None: "\<not> isExpired now created None"
  by (simp add: isExpired_def)

text \<open>
  C5. With the stores ordered \<open>[A, B]\<close>, when \<open>A\<close> answers \<open>null\<close> (or rejects) and \<open>B\<close> answers
  the value \<open>v\<close>, \<open>get\<close> returns \<open>v\<close> and has written \<open>v\<close> to \<open>A\<close>; what that write does, resolve
  or reject, has no part in the result. When \<open>A\<close> is a \<open>MemoryStore\<close> whose read answered
  \<open>null\<close>, the write resolves, and a read of \<open>A\<close> afterwards, before the store's default
  lifetime has run out, answers \<open>v\<close>.
\<close>

theorem read_through_promotion:
  "((fst (st_get A now key) = Inr Null \<or> isl (fst (st_get A now key)))
        \<and> st_get B now key = (Inr v, B') \<and> v \<noteq> Null \<longrightarrow>
      LayeredStrategy_get now key [A, B]
        = (v, [snd (st_set (snd (st_get A now key)) now key v None), B']))
   \<and> (fst (MemoryStore_get now key a) = Inr Null \<and> st_get B now key = (Inr v, B')
        \<and> v \<noteq> Null \<and> v \<noteq> Undefined
        \<and> (lru_ttl (cache a) = 0 \<or> later - now \<le> lru_ttl (cache a)) \<longrightarrow>
      fst (LayeredStrategy_get now key [memoryStore a, B]) = v
      \<and> (\<exists>A'. snd (LayeredStrategy_get now key [memoryStore a, B]) = [A', B']
             \<and> fst (st_get A' later key) = Inr v))"
proof -
  have generic: "LayeredStrategy_get now key [A, B]
        = (v, [snd (st_set (snd (st_get A now key)) now key v None), B'])"
    if "fst (st_get A now key) = Inr Null \<or> isl (fst (st_get A now key))"
      "st_get B now key = (Inr v, B')" "v \<noteq> Null"
    for A
    using that
    by (cases "st_get A now key"; cases "fst (st_get A now key)")
       (auto simp: LayeredStrategy_get_def promoteValue_def)
  have memory: "fst (LayeredStrategy_get now key [memoryStore a, B]) = v
      \<and> (\<exists>A'. snd (LayeredStrategy_get now key [memoryStore a, B]) = [A', B']
             \<and> fst (st_get A' later key) = Inr v)"
    if miss: "fst (MemoryStore_get now key a) = Inr Null" and hit: "st_get B now key = (Inr v, B')"
      and v: "v \<noteq> Null" "v \<noteq> Undefined"
      and fresh: "lru_ttl (cache a) = 0 \<or> later - now \<le> lru_ttl (cache a)"
  proof -
    obtain a1 where a1: "MemoryStore_get now key a = (Inr Null, a1)"
      using miss by (cases "MemoryStore_get now key a") simp
    from get_resolved[OF a1] obtain k where closed1: "breaker_closed a1"
      and key: "validateKey key = Inr k" and life: "lru_ttl (cache a1) = lru_ttl (cache a)"
      by blast
    from set_closed[OF closed1 key v(2), of now] obtain a2 it
      where a2: "MemoryStore_set now key v None a1 = (Inr (), a2)" and closed2: "breaker_closed a2"
        and held: "map_of (lru_items (cache a2)) k = Some it"
        and it: "entry_value (item_value it) = v" "ttl (item_value it) = None"
          "item_ttl it = lru_ttl (cache a1)"
          "item_start it = (if lru_ttl (cache a1) \<noteq> 0 then now else 0)"
      by blast
    from key have k: "key = KeyString k" "k \<noteq> []"
      by (auto simp: validateKey_def split: cache_key.splits if_splits)
    have live: "\<not> lru_stale later it"
      using fresh it life by (auto simp: lru_stale_def)
    have unexpired: "\<not> isExpired later (createdAt (item_value it)) (ttl (item_value it))"
      using it by (simp add: isExpired_None)
    have "fst (MemoryStore_get later (KeyString k) a2) = Inr (entry_value (item_value it))"
      using get_live[OF held k(2) closed2 live unexpired] by blast
    with it k have read: "fst (MemoryStore_get later key a2) = Inr v" by simp
    have "LayeredStrategy_get now key [memoryStore a, B]
        = (v, [snd (st_set (memoryStore a1) now key v None), B'])"
      using generic[of "memoryStore a"] hit v(1) by (simp add: a1)
    with a2 have "LayeredStrategy_get now key [memoryStore a, B] = (v, [memoryStore a2, B'])"
      by simp
    with read show ?thesis by simp
  qed
  from generic memory show ?thesis by blast
qed

theorem read_through_promotion_witness:
  "fst (LayeredStrategy_get 2000 (KeyString ''user:1'') [redis_down, memoryStore three_keys_store])
     = Primitive ''user1''
   \<and> fst (LayeredStrategy_get 2000 (KeyString ''user:1'')
            [memoryStore (MemoryStore_new test_config), memoryStore three_keys_store])
     = Primitive ''user1''
   \<and> (\<exists>A' B'. snd (LayeredStrategy_get 2000 (KeyString ''user:1'')
                     [memoryStore (MemoryStore_new test_config), memoryStore three_keys_store])
                 = [A', B']
          \<and> fst (st_get A' 2000 (KeyString ''user:1'')) = Inr (Primitive ''user1''))"
proof -
  let ?key = "KeyString ''user:1''" and ?B = "memoryStore three_keys_store"
  let ?B' = "snd (st_get ?B 2000 ?key)"
  have "fst (MemoryStore_get 2000 ?key three_keys_store) = Inr (Primitive ''user1'')"
    by code_simp
  then have hit: "st_get ?B 2000 ?key = (Inr (Primitive ''user1''), ?B')"
    by (simp add: prod_eq_iff)
  have miss: "fst (MemoryStore_get 2000 ?key (MemoryStore_new test_config)) = Inr Null"
    by code_simp
  have life: "lru_ttl (cache (MemoryStore_new test_config)) = 0
       \<or> 2000 - 2000 \<le> lru_ttl (cache (MemoryStore_new test_config))"
    by (simp add: MemoryStore_new_def test_config_def)
  have down: "fst (st_get redis_down 2000 ?key) = Inr Null \<or> isl (fst (st_get redis_down 2000 ?key))"
    by (simp add: redis_down_def)
  note r = read_through_promotion
    [where now = 2000 and later = 2000 and key = ?key and B = ?B and B' = ?B'
       and v = "Primitive ''user1''" and a = "MemoryStore_new test_config" and A = redis_down]
  from r down hit have a: "fst (LayeredStrategy_get 2000 ?key [redis_down, ?B]) = Primitive ''user1''"
    by simp
  from r miss hit life have b: "fst (LayeredStrategy_get 2000 ?key
            [memoryStore (MemoryStore_new test_config), ?B]) = Primitive ''user1''
      \<and> (\<exists>A'. snd (LayeredStrategy_get 2000 ?key [memoryStore (MemoryStore_new test_config), ?B])
                 = [A', ?B']
          \<and> fst (st_get A' 2000 ?key) = Inr (Primitive ''user1''))"
    by simp
  from a b show ?thesis by blast
qed

subsection \<open>Validation of keys and values\<close>







subsection \<open>Cascading invalidation on a cycle\<close>

lemma cyclic_store_read_fixed:
  "MemoryStore_get 2000 (KeyString ''report'') cyclic_store
     = (Inr (Object ''report'' (DependencyArray [''A'', ''B''])), cyclic_store_read)"
  "MemoryStore_get 2000 (KeyString ''report'') cyclic_store_read
     = (Inr (Object ''report'' (DependencyArray [''A'', ''B''])), cyclic_store_read)"
  by (simp_all add: cyclic_store_read_def cyclic_store_def MemoryStore_get_def MemoryStore_set_def
        executeWithCircuitBreaker_def MemoryStore_new_def test_config_def base_store_init_def
        get_body_def set_body_def validateKey_def validateValue_def Let_def
        lru_get_def lru_set_def lru_stale_def lru_restart_def lru_remove_def
        dispose_all_def updateIndexes_def isExpired_def touch_entry_def)

lemma cyclic_store_nothing_indexed:
  "MemoryStore_invalidateByDependency 2000 d cyclic_store = (Inr 0, cyclic_store)"
  "MemoryStore_invalidateByDependency 2000 d cyclic_store_read = (Inr 0, cyclic_store_read)"
  by (simp_all add: cyclic_store_read_def cyclic_store_def MemoryStore_get_def MemoryStore_set_def
        MemoryStore_invalidateByDependency_def invalidateByDependency_body_def
        executeWithCircuitBreaker_def MemoryStore_new_def test_config_def base_store_init_def
        get_body_def set_body_def validateKey_def validateValue_def Let_def
        lru_get_def lru_set_def lru_stale_def lru_restart_def lru_remove_def
        dispose_all_def updateIndexes_def isExpired_def touch_entry_def)

lemma cyclic_store_keys:
  "MemoryStore_keys 2000 (Some ''*'') cyclic_store = (Inr [''report''], cyclic_store)"
  "MemoryStore_keys 2000 (Some ''*'') cyclic_store_read = (Inr [''report''], cyclic_store_read)"
  by (simp_all add: cyclic_store_read_def cyclic_store_def MemoryStore_get_def MemoryStore_set_def
        MemoryStore_keys_def keys_body_def lru_keys_def regex_test_patternToRegex line_terminator_def
        executeWithCircuitBreaker_def MemoryStore_new_def test_config_def base_store_init_def
        get_body_def set_body_def validateKey_def validateValue_def Let_def
        lru_get_def lru_set_def lru_stale_def lru_restart_def lru_remove_def
        dispose_all_def updateIndexes_def isExpired_def touch_entry_def)

lemma cyclic_store_round:
  "invalidate_each 2000 d [memoryStore cyclic_store] = ([0], [memoryStore cyclic_store])"
  "invalidate_each 2000 d [memoryStore cyclic_store_read] = ([0], [memoryStore cyclic_store_read])"
  "findChildDependencies 2000 ''A'' [memoryStore cyclic_store]
     = ([''B''], [memoryStore cyclic_store_read])"
  "findChildDependencies 2000 ''A'' [memoryStore cyclic_store_read]
     = ([''B''], [memoryStore cyclic_store_read])"
  "findChildDependencies 2000 ''B'' [memoryStore cyclic_store_read]
     = ([''A''], [memoryStore cyclic_store_read])"
  by (simp_all add: cyclic_store_nothing_indexed cyclic_store_keys cyclic_store_read_fixed
        findChildDependencies_def add_children_def set_add_def)

lemma cycle_exceeds_every_depth:
  "invalidateByDependency depth 2000 cascading ''A'' [memoryStore cyclic_store_read] = None
   \<and> invalidateByDependency depth 2000 cascading ''B'' [memoryStore cyclic_store_read] = None"
proof (induction depth)
  case 0
  show ?case by simp
next
  case (Suc depth)
  have c: "cascading\<lparr>cascade := True\<rparr> = cascading" by (simp add: cascading_def)
  have o: "\<not> async cascading" "cascade cascading" by (simp_all add: cascading_def)
  from Suc show ?case
    by (simp add: cyclic_store_round cascadeInvalidation_def c o del: invalidate_each.simps)
qed

text \<open>
  C1 on \<open>src/invalidation/DependencyInvalidator.ts\<close>. One cached value that depends on \<open>A\<close>
  and on \<open>B\<close> makes \<open>B\<close> a child of \<open>A\<close> and \<open>A\<close> a child of \<open>B\<close>. The file keeps no set of
  visited dependencies, so \<open>invalidateByDependency('A', {cascade: true})\<close> calls itself for
  \<open>B\<close>, then for \<open>A\<close>, and so on: whatever the bound on the depth of the calls, it is reached.
  The call does not return.
\<close>

theorem cascade_on_cycle_never_returns:
  "invalidateByDependency depth 2000 cascading ''A'' [memoryStore cyclic_store] = None"
proof (cases depth)
  case 0
  then show ?thesis by simp
next
  case (Suc d)
  have c: "cascading\<lparr>cascade := True\<rparr> = cascading" by (simp add: cascading_def)
  have o: "\<not> async cascading" "cascade cascading" by (simp_all add: cascading_def)
  from Suc cycle_exceeds_every_depth[of d] show ?thesis
    by (simp add: cyclic_store_round cascadeInvalidation_def c o del: invalidate_each.simps)
qed

subsection \<open>The revised cascade returns\<close>

lemma for_each_child_mono:
  assumes "\<And>c w r. recurse c w = Some r \<Longrightarrow> recurse' c w = Some r"
  shows "for_each_child recurse cs w = Some r \<Longrightarrow> for_each_child recurse' cs w = Some r"
proof (induction cs arbitrary: w r)
  case Nil
  then show ?case by simp
next
  case (Cons c cs)
  from Cons.prems obtain n w1 m w2 where 1: "recurse c w = Some (n, w1)"
    and 2: "for_each_child recurse cs w1 = Some (m, w2)" and r: "r = (n + m, w2)"
    by (auto split: option.splits)
  from 1 have "recurse' c w = Some (n, w1)" by (rule assms)
  moreover from 2 have "for_each_child recurse' cs w1 = Some (m, w2)" by (rule Cons.IH)
  ultimately show ?case using r by simp
qed

lemma internal_mono:
  "invalidateByDependencyInternal depth now options d w = Some r \<Longrightarrow>
     invalidateByDependencyInternal (Suc depth) now options d w = Some r"
proof (induction depth arbitrary: options d w r)
  case 0
  then show ?case by simp
next
  case (Suc depth)
  have step: "\<And>c w r. invalidateByDependencyInternal depth now (options\<lparr>cascade := True\<rparr>) c w = Some r
      \<Longrightarrow> invalidateByDependencyInternal (Suc depth) now (options\<lparr>cascade := True\<rparr>) c w = Some r"
    by (rule Suc.IH)
  have casc: "cascadeInvalidation_revised
        (invalidateByDependencyInternal (Suc depth) now (options\<lparr>cascade := True\<rparr>)) now d w' = Some r'"
    if c: "cascadeInvalidation_revised
        (invalidateByDependencyInternal depth now (options\<lparr>cascade := True\<rparr>)) now d w' = Some r'"
    for w' r'
  proof -
    obtain cs stores1 where f: "findChildDependencies now d (run_stores w') = (cs, stores1)"
      by (cases "findChildDependencies now d (run_stores w')")
    show ?thesis
    proof (cases "cs = []")
      case True
      with c f show ?thesis by (simp add: cascadeInvalidation_revised_def)
    next
      case False
      with c f have "for_each_child
          (invalidateByDependencyInternal depth now (options\<lparr>cascade := True\<rparr>))
          cs (w'\<lparr>run_stores := stores1\<rparr>) = Some r'"
        by (simp add: cascadeInvalidation_revised_def)
      then have "for_each_child
          (invalidateByDependencyInternal (Suc depth) now (options\<lparr>cascade := True\<rparr>))
          cs (w'\<lparr>run_stores := stores1\<rparr>) = Some r'"
        by (rule for_each_child_mono[rotated]) (rule step)
      with False f show ?thesis
        by (simp add: cascadeInvalidation_revised_def del: invalidateByDependencyInternal.simps)
    qed
  qed
  show ?case
  proof (cases "d \<in> set (visited w)")
    case True
    with Suc.prems show ?thesis by simp
  next
    case False
    obtain results stores1 where ie: "invalidate_each now d (run_stores w) = (results, stores1)"
      by (cases "invalidate_each now d (run_stores w)")
    let ?w1 = "w\<lparr>visited := set_add d (visited w), run_stores := stores1\<rparr>"
    show ?thesis
    proof (cases "\<not> async options \<and> cascade options")
      case False
      with Suc.prems \<open>d \<notin> set (visited w)\<close> ie show ?thesis
        by (subst invalidateByDependencyInternal.simps) (auto simp: Let_def)
    next
      case True
      with Suc.prems \<open>d \<notin> set (visited w)\<close> ie obtain n w2 where
        c: "cascadeInvalidation_revised
              (invalidateByDependencyInternal depth now (options\<lparr>cascade := True\<rparr>)) now d ?w1
            = Some (n, w2)" and r: "r = (sum_list results + n, w2)"
        by (auto simp: Let_def split: option.splits)
      from c have "cascadeInvalidation_revised
              (invalidateByDependencyInternal (Suc depth) now (options\<lparr>cascade := True\<rparr>)) now d ?w1
            = Some (n, w2)"
        by (rule casc)
      with True \<open>d \<notin> set (visited w)\<close> ie r show ?thesis
        by (subst invalidateByDependencyInternal.simps) (simp add: Let_def)
    qed
  qed
qed

lemma internal_mono_le:
  assumes "invalidateByDependencyInternal depth now options d w = Some r"
  shows "invalidateByDependencyInternal (depth + k) now options d w = Some r"
proof (induction k)
  case 0
  with assms show ?case by simp
next
  case (Suc k)
  then have "invalidateByDependencyInternal (Suc (depth + k)) now options d w = Some r"
    by (rule internal_mono)
  then show ?case by simp
qed

lemma set_set_add: "set (set_add x xs) = insert x (set xs)"
  by (auto simp: set_add_def)

lemma distinct_set_add: "distinct xs \<Longrightarrow> distinct (set_add x xs)"
  by (simp add: set_add_def)

lemma run_extends_trans: "run_extends W a b \<Longrightarrow> run_extends W b c \<Longrightarrow> run_extends W a c"
  by (auto simp: run_extends_def)

lemma unvisited_shrinks:
  assumes "finite U'" and "set (visited w) \<subseteq> set (visited w')"
  shows "card (U' - set (visited w')) \<le> card (U' - set (visited w))"
  using assms by (intro card_mono) auto

lemma children_loop_returns:
  assumes fin: "finite U'"
    and each: "\<And>c w. c \<in> U' \<Longrightarrow> run_stores w \<in> W \<Longrightarrow> card (U' - set (visited w)) < depth \<Longrightarrow>
                 \<exists>n w'. recurse c w = Some (n, w') \<and> run_extends W w w'"
  shows "set cs \<subseteq> U' \<Longrightarrow> run_stores w \<in> W \<Longrightarrow> card (U' - set (visited w)) < depth \<Longrightarrow>
           \<exists>n w'. for_each_child recurse cs w = Some (n, w') \<and> run_extends W w w'"
proof (induction cs arbitrary: w)
  case Nil
  then show ?case by (simp add: run_extends_def)
next
  case (Cons c cs)
  from Cons.prems have "c \<in> U'" by simp
  with Cons.prems obtain n w1 where 1: "recurse c w = Some (n, w1)" and e1: "run_extends W w w1"
    using each by blast
  from e1 have w1: "run_stores w1 \<in> W" and sub: "set (visited w) \<subseteq> set (visited w1)"
    by (simp_all add: run_extends_def)
  have "card (U' - set (visited w1)) \<le> card (U' - set (visited w))"
    by (rule unvisited_shrinks[OF fin sub])
  with Cons.prems have small: "card (U' - set (visited w1)) < depth" by simp
  from Cons.prems have "set cs \<subseteq> U'" by simp
  from Cons.IH[OF this w1 small] obtain m w2
    where 2: "for_each_child recurse cs w1 = Some (m, w2)" and e2: "run_extends W w1 w2"
    by blast
  from 1 2 have "for_each_child recurse (c # cs) w = Some (n + m, w2)" by simp
  moreover from e1 e2 have "run_extends W w w2" by (rule run_extends_trans)
  ultimately show ?case by blast
qed

lemma internal_returns:
  assumes fin: "finite U'" and closed: "cascade_closed now U W" and sub: "U \<subseteq> U'"
  shows "d \<in> U' \<Longrightarrow> run_stores w \<in> W \<Longrightarrow> card (U' - set (visited w)) < depth \<Longrightarrow>
           \<exists>n w'. invalidateByDependencyInternal depth now options d w = Some (n, w')
                  \<and> run_extends W w w' \<and> d \<in> set (visited w')"
proof (induction depth arbitrary: d w options)
  case 0
  then show ?case by simp
next
  case (Suc depth)
  show ?case
  proof (cases "d \<in> set (visited w)")
    case True
    with Suc.prems show ?thesis by (simp add: run_extends_def)
  next
    case False
    obtain results stores1 where ie: "invalidate_each now d (run_stores w) = (results, stores1)"
      by (cases "invalidate_each now d (run_stores w)")
    let ?w1 = "w\<lparr>visited := set_add d (visited w), run_stores := stores1\<rparr>"
    from closed Suc.prems(2) ie have s1: "stores1 \<in> W"
      unfolding cascade_closed_def by (metis snd_conv)
    then have e1: "run_extends W w ?w1"
      by (auto simp: run_extends_def set_set_add distinct_set_add)
    have d1: "d \<in> set (visited ?w1)" by (simp add: set_set_add)
    from Suc.prems(1) False have "d \<in> U' - set (visited w)" by simp
    moreover from fin have "finite (U' - set (visited w))" by simp
    ultimately have "card (U' - set (visited w)) = Suc (card (U' - set (visited w) - {d}))"
      by (rule card.remove[rotated])
    moreover have "U' - set (visited ?w1) = U' - set (visited w) - {d}"
      by (auto simp: set_set_add)
    ultimately have small: "card (U' - set (visited ?w1)) < depth"
      using Suc.prems(3) by simp
    show ?thesis
    proof (cases "\<not> async options \<and> cascade options")
      case False
      with \<open>d \<notin> set (visited w)\<close> ie e1 d1 show ?thesis
        by (auto simp: Let_def)
    next
      case True
      obtain cs stores2 where f: "findChildDependencies now d stores1 = (cs, stores2)"
        by (cases "findChildDependencies now d stores1")
      let ?w2 = "?w1\<lparr>run_stores := stores2\<rparr>"
      from closed s1 f have s2: "stores2 \<in> W" and cs: "set cs \<subseteq> U"
        unfolding cascade_closed_def by (metis snd_conv, metis fst_conv)
      have e2: "run_extends W w ?w2"
        using s2 by (auto simp: run_extends_def set_set_add distinct_set_add)
      have d2: "d \<in> set (visited ?w2)" by (simp add: set_set_add)
      have small2: "card (U' - set (visited ?w2)) < depth" using small by simp
      have "\<exists>n w'. cascadeInvalidation_revised
              (invalidateByDependencyInternal depth now (options\<lparr>cascade := True\<rparr>)) now d ?w1
            = Some (n, w') \<and> run_extends W w w' \<and> d \<in> set (visited w')"
      proof (cases "cs = []")
        case True
        with f e2 d2 show ?thesis by (simp add: cascadeInvalidation_revised_def)
      next
        case False
        have "\<exists>n w'. for_each_child
            (invalidateByDependencyInternal depth now (options\<lparr>cascade := True\<rparr>)) cs ?w2
            = Some (n, w') \<and> run_extends W ?w2 w'"
        proof (rule children_loop_returns[OF fin])
          show "\<exists>n w'. invalidateByDependencyInternal depth now (options\<lparr>cascade := True\<rparr>) c v
                  = Some (n, w') \<and> run_extends W v w'"
            if "c \<in> U'" "run_stores v \<in> W" "card (U' - set (visited v)) < depth" for c v
            using Suc.IH[OF that] by blast
          show "set cs \<subseteq> U'" using cs sub by blast
          show "run_stores ?w2 \<in> W" using s2 by simp
          show "card (U' - set (visited ?w2)) < depth" by (rule small2)
        qed
        then obtain n w' where l: "for_each_child
            (invalidateByDependencyInternal depth now (options\<lparr>cascade := True\<rparr>)) cs ?w2
            = Some (n, w')" and e3: "run_extends W ?w2 w'"
          by blast
        from e2 e3 have "run_extends W w w'" by (rule run_extends_trans)
        moreover from e3 d2 have "d \<in> set (visited w')" by (auto simp: run_extends_def)
        ultimately show ?thesis using False f l by (simp add: cascadeInvalidation_revised_def)
      qed
      then obtain n w' where c: "cascadeInvalidation_revised
              (invalidateByDependencyInternal depth now (options\<lparr>cascade := True\<rparr>)) now d ?w1
            = Some (n, w')" and e: "run_extends W w w'" "d \<in> set (visited w')"
        by blast
      with True \<open>d \<notin> set (visited w)\<close> ie show ?thesis
        by (simp add: Let_def)
    qed
  qed
qed

text \<open>
  The revised \<open>invalidateByDependency\<close> returns. When the children that the stores can yield
  lie in a finite set \<open>U\<close>, every call returns within depth \<open>card U + 2\<close>, with the same result
  at every greater depth; the dependencies it has visited are distinct and include the one
  it was called for. A dependency already visited is skipped with a warning and the count
  0.
\<close>

lemma revised_cascade_returns:
  assumes fin: "finite U" and closed: "cascade_closed now U W" and stores: "stores \<in> W"
  shows "\<exists>n w. (\<forall>k. invalidateByDependency_revised (card U + 2 + k) now options d stores
                       = Some (n, w))
              \<and> distinct (visited w) \<and> d \<in> set (visited w)"
proof -
  let ?U' = "insert d U" and ?w0 = "\<lparr>visited = [], warnings = [], run_stores = stores\<rparr>"
  have fin': "finite ?U'" using fin by simp
  have "card (?U' - set (visited ?w0)) \<le> card U + 1"
    using fin by (simp add: card_insert_if)
  then have small: "card (?U' - set (visited ?w0)) < card U + 2" by simp
  have "\<exists>n w'. invalidateByDependencyInternal (card U + 2) now options d ?w0 = Some (n, w')
                  \<and> run_extends W ?w0 w' \<and> d \<in> set (visited w')"
    by (rule internal_returns[OF fin' closed _ _ _ small]) (use stores in auto)
  then obtain n w where r: "invalidateByDependencyInternal (card U + 2) now options d ?w0 = Some (n, w)"
    and e: "run_extends W ?w0 w" and d: "d \<in> set (visited w)"
    by blast
  have all: "\<forall>k. invalidateByDependency_revised (card U + 2 + k) now options d stores = Some (n, w)"
    unfolding invalidateByDependency_revised_def using internal_mono_le[OF r] by blast
  from e have dist: "distinct (visited w)" by (simp add: run_extends_def)
  with all d show ?thesis by blast
qed

lemma visited_dependency_skipped:
  "d \<in> set (visited w) \<Longrightarrow>
     invalidateByDependencyInternal (Suc depth) now options d w
       = Some (0, w\<lparr>warnings := warnings w
                     @ [''Circular dependency detected: '' @ d
                        @ ''. Skipping to prevent infinite recursion.'']\<rparr>)"
  by simp

text \<open>
  On the store with the cycle the revised code returns: it visits \<open>A\<close>, then \<open>B\<close>, and
  skips \<open>A\<close> with a warning when it comes round to it.
\<close>

lemma revised_cascade_on_cycle_returns:
  "invalidateByDependency_revised (Suc (Suc (Suc k))) 2000 cascading ''A'' [memoryStore cyclic_store]
     = Some (0, \<lparr>visited = [''A'', ''B''],
                  warnings = [''Circular dependency detected: A. Skipping to prevent infinite recursion.''],
                  run_stores = [memoryStore cyclic_store_read]\<rparr>)"
proof -
  have c: "cascading\<lparr>cascade := True\<rparr> = cascading" by (simp add: cascading_def)
  have o: "\<not> async cascading" "cascade cascading" by (simp_all add: cascading_def)
  show ?thesis
    by (simp add: invalidateByDependency_revised_def cyclic_store_round
          cascadeInvalidation_revised_def set_add_def c o del: invalidate_each.simps)
qed

end
